theory Spec2Isabelle
  imports Main "HOL-Library.Word"
begin

unbundle bit_operations_syntax

section \<open>Basic types, errors and handler events\<close>

type_synonym u8 = "8 word"
type_synonym u32 = "32 word"
type_synonym u64 = "64 word"

text \<open>
  \<open>int32_t\<close> and \<open>int64_t\<close> values are words read in two's complement (\<open>sint\<close>,
  \<open><s\<close>); their arithmetic wraps around. (Signed overflow is undefined in C++; the
  wrap-around is what the machine does.)
\<close>

type_synonym i32 = "32 word"
type_synonym i64 = "64 word"

text \<open>\<open>std::to_string\<close> on an unsigned number: its decimal digits.\<close>

definition digit_char :: "nat \<Rightarrow> char" where
  "digit_char n = char_of (48 + n)"

function to_string :: "nat \<Rightarrow> string" where
  "to_string n =
     (if n < 10 then [digit_char n] else to_string (n div 10) @ [digit_char (n mod 10)])"
  by pat_completeness auto
termination
  by (relation "measure id") auto

declare to_string.simps [simp del]

text \<open>
  Modelled from the spec: the error kinds (the exception classes and the macro
  \<open>vtzero_assert\<close> are declared in \<open>exception.hpp\<close>, which is not part of the sources
  at hand). \<open>geometry_exception\<close> and \<open>format_exception\<close> carry the message they are
  thrown with, \<open>version_exception\<close> the version found; \<open>vtzero_assert\<close> surfaces a
  violated precondition as a distinct assertion error.
\<close>

datatype error =
    geometry_exception string
  | format_exception string
  | version_exception u32
  | assert_error

text \<open>\<open>struct point\<close>: two \<open>int32_t\<close> coordinates, default \<open>(0, 0)\<close>.\<close>

record point =
  point_x :: i32
  point_y :: i32

definition point_zero :: point where
  "point_zero = \<lparr>point_x = 0, point_y = 0\<rparr>"

text \<open>
  The geometry handler is a template parameter with three groups of methods. The model
  is the handler that records every call made on it, in order: any other handler is a
  function of that record.
\<close>

datatype event =
    points_begin u32
  | points_point point
  | points_end
  | linestring_begin u32
  | linestring_point point
  | linestring_end
  | ring_begin u32
  | ring_point point
  | ring_end bool

type_synonym handler = "event list"

text \<open>
  A decoding function that raises leaves the handler with the calls made up to that
  moment: the left injection holds the exception and the handler as it then is.
\<close>

type_synonym 'a decoded = "(error \<times> handler) + 'a"

text \<open>
  Modelled from the spec: \<open>GeomType\<close> and class \<open>geometry\<close> (declared in
  \<open>types.hpp\<close>): a geometry is the pair of a geometry type and the command stream, a
  sequence of unsigned 32-bit integers.
\<close>

datatype GeomType = UNKNOWN | POINT | LINESTRING | POLYGON

record geometry =
  geom_data :: "u32 list"
  geom_type :: GeomType

section \<open>Geometry commands (\<open>geometry.hpp\<close>, namespace \<open>detail\<close>)\<close>

definition command_integer :: "u32 \<Rightarrow> u32 \<Rightarrow> u32" where
  "command_integer ident cnt = (ident AND 0x7) OR (push_bit 3 cnt)"

definition command_move_to :: "u32 \<Rightarrow> u32" where
  "command_move_to cnt = command_integer 1 cnt"

definition command_line_to :: "u32 \<Rightarrow> u32" where
  "command_line_to cnt = command_integer 2 cnt"

definition command_close_path :: "u32 \<Rightarrow> u32" where
  "command_close_path cnt = command_integer 7 cnt"

definition get_command_id :: "u32 \<Rightarrow> u32" where
  "get_command_id ci = ci AND 0x7"

definition get_command_count :: "u32 \<Rightarrow> u32" where
  "get_command_count ci = drop_bit 3 ci"

text \<open>Both coordinates are widened to 64 bits (sign extension) before multiplying.\<close>

definition det :: "point \<Rightarrow> point \<Rightarrow> i64" where
  "det a b = scast (point_x a) * scast (point_y b) - scast (point_x b) * scast (point_y a)"

text \<open>
  Modelled from the spec: \<open>protozero::decode_zigzag32\<close> (of the record codec) decodes
  a parameter integer, which is written as \<open>zz(n) = (n << 1) XOR (n >> 31)\<close>: the value
  shifted right by one bit, XOR minus its lowest bit.
\<close>

definition decode_zigzag32 :: "u32 \<Rightarrow> i32" where
  "decode_zigzag32 v = (drop_bit 1 v) XOR (- (v AND 1))"

section \<open>\<open>basic_geometry_decoder\<close>\<close>

text \<open>
  \<open>m_it\<close> holds the integers from the iterator to \<open>m_end\<close>: the part of the stream not
  read yet.
\<close>

record decoder =
  m_it :: "u32 list"
  m_cursor :: point
  m_command_id :: u32
  m_count :: u32
  m_strict :: bool

definition geometry_decoder :: "u32 list \<Rightarrow> bool \<Rightarrow> decoder" where
  "geometry_decoder stream strict =
     \<lparr>m_it = stream, m_cursor = point_zero, m_command_id = 0, m_count = 0, m_strict = strict\<rparr>"

definition count :: "decoder \<Rightarrow> u32" where
  "count d = m_count d"

definition decoder_done :: "decoder \<Rightarrow> bool" where
  "decoder_done d = (m_it d = [])"

definition check_expected :: "u32 \<Rightarrow> u32 list \<Rightarrow> decoder \<Rightarrow> error + (bool \<times> decoder)" where
  "check_expected expected_command rest d =
     (if m_command_id d \<noteq> expected_command
      then Inl (geometry_exception (''expected command '' @ to_string (unat expected_command)
                  @ '' but got '' @ to_string (unat (m_command_id d))))
      else Inr (True, d\<lparr>m_it := rest\<rparr>))"

text \<open>
  \<open>next_command\<close>: \<open>check_expected\<close> is its second half, the comparison with the expected
  command and the step over the command integer.
\<close>

definition next_command :: "u32 \<Rightarrow> decoder \<Rightarrow> error + (bool \<times> decoder)" where
  "next_command expected_command d =
     (if m_count d \<noteq> 0 then Inl assert_error
      else case m_it d of
        [] \<Rightarrow> Inr (False, d)
      | ci # rest \<Rightarrow>
          (let d1 = d\<lparr>m_command_id := get_command_id ci\<rparr> in
           if m_command_id d1 = command_close_path 0
           then (if get_command_count ci \<noteq> 1
                 then Inl (geometry_exception ''ClosePath command count is not 1'')
                 else check_expected expected_command rest d1)
           else check_expected expected_command rest (d1\<lparr>m_count := get_command_count ci\<rparr>)))"

definition next_point :: "decoder \<Rightarrow> error + (point \<times> decoder)" where
  "next_point d =
     (if \<not> 0 < m_count d then Inl assert_error
      else case m_it d of
        px # py # rest \<Rightarrow>
          (let dx = decode_zigzag32 px; dy = decode_zigzag32 py in
           if m_strict d \<and> m_command_id d = command_line_to 0 \<and> dx = 0 \<and> dy = 0
           then Inl (geometry_exception
                  ''found consecutive equal points (spec 4.3.3.2) (strict mode)'')
           else (let c = \<lparr>point_x = point_x (m_cursor d) + dx,
                           point_y = point_y (m_cursor d) + dy\<rparr>
                 in Inr (c, d\<lparr>m_it := rest, m_cursor := c, m_count := m_count d - 1\<rparr>)))
      | _ \<Rightarrow> Inl (geometry_exception ''too few points in geometry''))"

section \<open>\<open>decode_point_geometry\<close>\<close>

text \<open>The loop \<open>while (decoder.count() > 0)\<close> of \<open>decode_point_geometry\<close>.\<close>

function points_loop :: "decoder \<Rightarrow> handler \<Rightarrow> (decoder \<times> handler) decoded" where
  "points_loop d h =
     (if 0 < count d
      then (case next_point d of
              Inl e \<Rightarrow> Inl (e, h)
            | Inr (p, d') \<Rightarrow> points_loop d' (h @ [points_point p]))
      else Inr (d, h))"
  by pat_completeness auto
termination
proof (relation "measure (\<lambda>(d, h). unat (m_count d))")
  show "wf (measure (\<lambda>(d, h). unat (m_count d)))"
    by simp
next
  fix d :: decoder and h :: handler and r p d'
  assume pos: "0 < count d" and step: "next_point d = Inr r" and r: "(p, d') = r"
  from step r have "m_count d' = m_count d - 1"
    by (auto simp: next_point_def Let_def split: if_splits list.splits)
  moreover from pos have "m_count d \<noteq> 0"
    by (simp add: count_def)
  ultimately have "unat (m_count d') < unat (m_count d)"
    by (simp add: unat_minus_one unat_gt_0)
  then show "((d', h @ [points_point p]), (d, h)) \<in> measure (\<lambda>(d, h). unat (m_count d))"
    by simp
qed

declare points_loop.simps [simp del]

definition decode_point_geometry :: "geometry \<Rightarrow> bool \<Rightarrow> handler \<Rightarrow> handler decoded" where
  "decode_point_geometry g strict h =
     (if geom_type g \<noteq> POINT then Inl (assert_error, h)
      else case next_command (command_move_to 0) (geometry_decoder (geom_data g) strict) of
        Inl e \<Rightarrow> Inl (e, h)
      | Inr (False, _) \<Rightarrow> Inl (geometry_exception ''expected MoveTo command (spec 4.3.4.2)'', h)
      | Inr (True, d) \<Rightarrow>
          if count d = 0
          then Inl (geometry_exception ''MoveTo command count is zero (spec 4.3.4.2)'', h)
          else (case points_loop d (h @ [points_begin (count d)]) of
                  Inl eh \<Rightarrow> Inl eh
                | Inr (d', h') \<Rightarrow>
                    if \<not> decoder_done d'
                    then Inl (geometry_exception
                           ''additional data after end of geometry (spec 4.3.4.2)'', h')
                    else Inr (h' @ [points_end])))"

section \<open>\<open>decode_linestring_geometry\<close>\<close>

text \<open>The inner loop \<open>while (decoder.count() > 0)\<close> of \<open>decode_linestring_geometry\<close>.\<close>

function linestring_loop :: "decoder \<Rightarrow> handler \<Rightarrow> (decoder \<times> handler) decoded" where
  "linestring_loop d h =
     (if 0 < count d
      then (case next_point d of
              Inl e \<Rightarrow> Inl (e, h)
            | Inr (p, d') \<Rightarrow> linestring_loop d' (h @ [linestring_point p]))
      else Inr (d, h))"
  by pat_completeness auto
termination
proof (relation "measure (\<lambda>(d, h). unat (m_count d))")
  show "wf (measure (\<lambda>(d, h). unat (m_count d)))"
    by simp
next
  fix d :: decoder and h :: handler and r p d'
  assume pos: "0 < count d" and step: "next_point d = Inr r" and r: "(p, d') = r"
  from step r have "m_count d' = m_count d - 1"
    by (auto simp: next_point_def Let_def split: if_splits list.splits)
  moreover from pos have "m_count d \<noteq> 0"
    by (simp add: count_def)
  ultimately have "unat (m_count d') < unat (m_count d)"
    by (simp add: unat_minus_one unat_gt_0)
  then show "((d', h @ [linestring_point p]), (d, h)) \<in> measure (\<lambda>(d, h). unat (m_count d))"
    by simp
qed

declare linestring_loop.simps [simp del]

text \<open>
  The body of the outer loop \<open>while (decoder.next_command(command_move_to()))\<close>: one
  linestring, from the check of the MoveTo count to \<open>linestring_end\<close>.
\<close>

definition decode_linestring_part :: "decoder \<Rightarrow> handler \<Rightarrow> (decoder \<times> handler) decoded" where
  "decode_linestring_part d1 h =
     (if count d1 \<noteq> 1
      then Inl (geometry_exception ''MoveTo command count is not 1 (spec 4.3.4.3)'', h)
      else case next_point d1 of
        Inl e \<Rightarrow> Inl (e, h)
      | Inr (first_point, d2) \<Rightarrow>
          (case next_command (command_line_to 0) d2 of
             Inl e \<Rightarrow> Inl (e, h)
           | Inr (found, d3) \<Rightarrow>
               if \<not> found
               then Inl (geometry_exception ''expected LineTo command (spec 4.3.4.3)'', h)
               else if count d3 = 0
               then Inl (geometry_exception ''LineTo command count is zero (spec 4.3.4.3)'', h)
               else (case linestring_loop d3
                            (h @ [linestring_begin (count d3 + 1), linestring_point first_point]) of
                       Inl eh \<Rightarrow> Inl eh
                     | Inr (d4, h4) \<Rightarrow> Inr (d4, h4 @ [linestring_end]))))"

function decode_linestring_loop :: "decoder \<Rightarrow> handler \<Rightarrow> handler decoded" where
  "decode_linestring_loop d h =
     (case next_command (command_move_to 0) d of
        Inl e \<Rightarrow> Inl (e, h)
      | Inr (found, d1) \<Rightarrow>
          if \<not> found then Inr h
          else (case decode_linestring_part d1 h of
                  Inl eh \<Rightarrow> Inl eh
                | Inr (d', h') \<Rightarrow> decode_linestring_loop d' h'))"
  by pat_completeness auto
termination
proof -
  have nc: "length (m_it d1) < length (m_it d)" if "next_command e d = Inr (True, d1)"
    for e d d1
    using that
    by (auto simp: next_command_def check_expected_def Let_def split: if_splits list.splits)
  have nc_le: "length (m_it d1) \<le> length (m_it d)" if "next_command e d = Inr (b, d1)"
    for e d d1 b
    using that
    by (auto simp: next_command_def check_expected_def Let_def split: if_splits list.splits)
  have np: "length (m_it d1) \<le> length (m_it d)" if "next_point d = Inr (p, d1)"
    for d d1 p
    using that by (auto simp: next_point_def Let_def split: if_splits list.splits)
  have lp: "linestring_loop d h = Inr (d', h') \<Longrightarrow> length (m_it d') \<le> length (m_it d)"
    for d h d' h'
  proof (induction d h rule: linestring_loop.induct)
    case (1 d h)
    show ?case
    proof (cases "0 < count d")
      case True
      with "1.prems" obtain p d2 where step: "next_point d = Inr (p, d2)"
        and rest: "linestring_loop d2 (h @ [linestring_point p]) = Inr (d', h')"
        by (auto simp: linestring_loop.simps [of d h] split: sum.splits)
      from "1.IH" [OF True step refl rest] np [OF step] show ?thesis
        by simp
    next
      case False
      with "1.prems" show ?thesis
        by (simp add: linestring_loop.simps [of d h])
    qed
  qed
  have part: "length (m_it d') \<le> length (m_it d1)"
    if "decode_linestring_part d1 h = Inr (d', h')" for d1 h d' h'
    using that
    by (auto simp: decode_linestring_part_def split: if_splits sum.splits
             dest!: np nc_le lp)
  show ?thesis
  proof (relation "measure (\<lambda>(d, h). length (m_it d))")
    show "wf (measure (\<lambda>(d, h). length (m_it d)))"
      by simp
  next
    fix d :: decoder and h :: handler and r found d1 r' d' h'
    assume "next_command (command_move_to 0) d = Inr r" "(found, d1) = r" "\<not> \<not> found"
      "decode_linestring_part d1 h = Inr r'" "(d', h') = r'"
    then have "length (m_it d1) < length (m_it d)" "length (m_it d') \<le> length (m_it d1)"
      using nc [of "command_move_to 0" d d1] part [of d1 h d' h'] by auto
    then show "((d', h'), (d, h)) \<in> measure (\<lambda>(d, h). length (m_it d))"
      by simp
  qed
qed

declare decode_linestring_loop.simps [simp del]

definition decode_linestring_geometry :: "geometry \<Rightarrow> bool \<Rightarrow> handler \<Rightarrow> handler decoded" where
  "decode_linestring_geometry g strict h =
     (if geom_type g \<noteq> LINESTRING then Inl (assert_error, h)
      else decode_linestring_loop (geometry_decoder (geom_data g) strict) h)"

section \<open>\<open>decode_polygon_geometry\<close>\<close>

text \<open>
  The inner loop \<open>while (decoder.count() > 0)\<close> of \<open>decode_polygon_geometry\<close>, with its
  local variables \<open>sum\<close> (here \<open>sum64\<close>) and \<open>last_point\<close>.
\<close>

function ring_loop ::
  "decoder \<Rightarrow> i64 \<Rightarrow> point \<Rightarrow> handler \<Rightarrow> (decoder \<times> i64 \<times> point \<times> handler) decoded" where
  "ring_loop d sum64 last_point h =
     (if 0 < count d
      then (case next_point d of
              Inl e \<Rightarrow> Inl (e, h)
            | Inr (p, d') \<Rightarrow> ring_loop d' (sum64 + det last_point p) p (h @ [ring_point p]))
      else Inr (d, sum64, last_point, h))"
  by pat_completeness auto
termination
proof (relation "measure (\<lambda>(d, s, l, h). unat (m_count d))")
  show "wf (measure (\<lambda>(d, s, l, h). unat (m_count d)))"
    by simp
next
  fix d :: decoder and sum64 :: i64 and last_point :: point and h :: handler and r p d'
  assume pos: "0 < count d" and step: "next_point d = Inr r" and r: "(p, d') = r"
  from step r have "m_count d' = m_count d - 1"
    by (auto simp: next_point_def Let_def split: if_splits list.splits)
  moreover from pos have "m_count d \<noteq> 0"
    by (simp add: count_def)
  ultimately have "unat (m_count d') < unat (m_count d)"
    by (simp add: unat_minus_one unat_gt_0)
  then show "((d', sum64 + det last_point p, p, h @ [ring_point p]), (d, sum64, last_point, h))
      \<in> measure (\<lambda>(d, s, l, h). unat (m_count d))"
    by simp
qed

declare ring_loop.simps [simp del]

text \<open>
  The body of the outer loop \<open>while (decoder.next_command(command_move_to()))\<close>: one
  ring, from the check of the MoveTo count to \<open>ring_end(sum > 0)\<close>.
\<close>

definition decode_polygon_ring ::
  "decoder \<Rightarrow> bool \<Rightarrow> handler \<Rightarrow> (decoder \<times> handler) decoded" where
  "decode_polygon_ring d1 strict h =
     (if count d1 \<noteq> 1
      then Inl (geometry_exception ''MoveTo command count is not 1 (spec 4.3.4.4)'', h)
      else case next_point d1 of
        Inl e \<Rightarrow> Inl (e, h)
      | Inr (start_point, d2) \<Rightarrow>
          (case next_command (command_line_to 0) d2 of
             Inl e \<Rightarrow> Inl (e, h)
           | Inr (found, d3) \<Rightarrow>
               if \<not> found
               then Inl (geometry_exception ''expected LineTo command (spec 4.3.4.4)'', h)
               else if strict \<and> count d3 \<le> 1
               then Inl (geometry_exception
                      ''LineTo command count is not greater than 1 (spec 4.3.4.4)'', h)
               else (case ring_loop d3 0 start_point
                            (h @ [ring_begin (count d3 + 2), ring_point start_point]) of
                       Inl eh \<Rightarrow> Inl eh
                     | Inr (d4, sum64, last_point, h4) \<Rightarrow>
                         (case next_command (command_close_path 0) d4 of
                            Inl e \<Rightarrow> Inl (e, h4)
                          | Inr (closed, d5) \<Rightarrow>
                              if \<not> closed
                              then Inl (geometry_exception
                                     ''expected ClosePath command (4.3.4.4)'', h4)
                              else (let sum64' = sum64 + det last_point start_point
                                    in Inr (d5, h4 @ [ring_point start_point,
                                                     ring_end (0 <s sum64')]))))))"

function decode_polygon_loop :: "decoder \<Rightarrow> bool \<Rightarrow> handler \<Rightarrow> handler decoded" where
  "decode_polygon_loop d strict h =
     (case next_command (command_move_to 0) d of
        Inl e \<Rightarrow> Inl (e, h)
      | Inr (found, d1) \<Rightarrow>
          if \<not> found then Inr h
          else (case decode_polygon_ring d1 strict h of
                  Inl eh \<Rightarrow> Inl eh
                | Inr (d', h') \<Rightarrow> decode_polygon_loop d' strict h'))"
  by pat_completeness auto
termination
proof -
  have nc: "length (m_it d1) < length (m_it d)" if "next_command e d = Inr (True, d1)"
    for e d d1
    using that
    by (auto simp: next_command_def check_expected_def Let_def split: if_splits list.splits)
  have nc_le: "length (m_it d1) \<le> length (m_it d)" if "next_command e d = Inr (b, d1)"
    for e d d1 b
    using that
    by (auto simp: next_command_def check_expected_def Let_def split: if_splits list.splits)
  have np: "length (m_it d1) \<le> length (m_it d)" if "next_point d = Inr (p, d1)"
    for d d1 p
    using that by (auto simp: next_point_def Let_def split: if_splits list.splits)
  have lp: "ring_loop d s l h = Inr (d', s', l', h') \<Longrightarrow> length (m_it d') \<le> length (m_it d)"
    for d s l h d' s' l' h'
  proof (induction d s l h rule: ring_loop.induct)
    case (1 d s l h)
    show ?case
    proof (cases "0 < count d")
      case True
      with "1.prems" obtain p d2 where step: "next_point d = Inr (p, d2)"
        and rest: "ring_loop d2 (s + det l p) p (h @ [ring_point p]) = Inr (d', s', l', h')"
        by (auto simp: ring_loop.simps [of d s l h] split: sum.splits)
      from "1.IH" [OF True step refl rest] np [OF step] show ?thesis
        by simp
    next
      case False
      with "1.prems" show ?thesis
        by (simp add: ring_loop.simps [of d s l h])
    qed
  qed
  have part: "length (m_it d') \<le> length (m_it d1)"
    if "decode_polygon_ring d1 strict h = Inr (d', h')" for d1 strict h d' h'
    using that
    by (auto simp: decode_polygon_ring_def Let_def split: if_splits sum.splits
             dest!: np nc_le lp)
  show ?thesis
  proof (relation "measure (\<lambda>(d, strict, h). length (m_it d))")
    show "wf (measure (\<lambda>(d, strict, h). length (m_it d)))"
      by simp
  next
    fix d :: decoder and strict :: bool and h :: handler and r found d1 r' d' h'
    assume "next_command (command_move_to 0) d = Inr r" "(found, d1) = r" "\<not> \<not> found"
      "decode_polygon_ring d1 strict h = Inr r'" "(d', h') = r'"
    then have "length (m_it d1) < length (m_it d)" "length (m_it d') \<le> length (m_it d1)"
      using nc [of "command_move_to 0" d d1] part [of d1 strict h d' h'] by auto
    then show "((d', strict, h'), (d, strict, h)) \<in> measure (\<lambda>(d, strict, h). length (m_it d))"
      by simp
  qed
qed

declare decode_polygon_loop.simps [simp del]

definition decode_polygon_geometry :: "geometry \<Rightarrow> bool \<Rightarrow> handler \<Rightarrow> handler decoded" where
  "decode_polygon_geometry g strict h =
     (if geom_type g \<noteq> POLYGON then Inl (assert_error, h)
      else decode_polygon_loop (geometry_decoder (geom_data g) strict) strict h)"

section \<open>The record codec\<close>

text \<open>
  Modelled from the spec: the record codec (\<open>protozero::pbf_message\<close>, a library that
  is not part of these sources) iterates the \<open>(field_number, wire_type, payload)\<close>
  triples of a byte slice and reads or skips each payload. A \<open>codec\<close> is the function
  from a byte slice to the triples that the iteration yields; every operation that
  constructs a reader takes it as its first argument. Slices on which the codec itself
  raises are outside the model.
\<close>

type_synonym bytes = "u8 list"

datatype pbf_wire_type = varint | fixed64 | length_delimited | fixed32

datatype pbf_payload =
    varint_value u64
  | fixed64_value u64
  | length_delimited_value bytes
  | fixed32_value u32

datatype pbf_field = pbf_field (field_tag: u32) (field_payload: pbf_payload)

fun wire_type :: "pbf_payload \<Rightarrow> pbf_wire_type" where
  "wire_type (varint_value _) = varint"
| "wire_type (fixed64_value _) = fixed64"
| "wire_type (length_delimited_value _) = length_delimited"
| "wire_type (fixed32_value _) = fixed32"

text \<open>The number of a wire type on the wire, as \<open>static_cast<uint32_t>\<close> gives it.\<close>

fun wire_type_number :: "pbf_wire_type \<Rightarrow> nat" where
  "wire_type_number varint = 0"
| "wire_type_number fixed64 = 1"
| "wire_type_number length_delimited = 2"
| "wire_type_number fixed32 = 5"

type_synonym codec = "bytes \<Rightarrow> pbf_field list"

text \<open>
  Modelled from the spec: a data view is a \<open>(pointer, length)\<close> pair over bytes owned by
  someone else. \<open>null_view\<close> is the default-constructed view, whose \<open>data()\<close> is
  \<open>nullptr\<close>; \<open>view bs\<close> is a view of the bytes \<open>bs\<close> of a buffer, whose \<open>data()\<close> is
  not null also when \<open>bs\<close> is empty: \<open>get_view()\<close> returns a pointer into the buffer
  that is read.
\<close>

datatype data_view = null_view | view bytes

text \<open>
  The state of a reader is the list of the fields not yet read. A reader over the null
  view has no field.
\<close>

type_synonym pbf_message = "pbf_field list"

fun pbf_message :: "codec \<Rightarrow> data_view \<Rightarrow> pbf_message" where
  "pbf_message rd null_view = []"
| "pbf_message rd (view bs) = rd bs"

text \<open>
  \<open>reader.next(tag, length_delimited)\<close> followed by \<open>reader.get_view()\<close>: the fields are
  skipped up to the first one with this tag and wire type; the result is its payload and
  the reader behind it, or \<open>None\<close> at the end of the data.
\<close>

fun next_length_delimited :: "u32 \<Rightarrow> pbf_message \<Rightarrow> (bytes \<times> pbf_message) option" where
  "next_length_delimited t [] = None"
| "next_length_delimited t (f # fs) =
     (case field_payload f of
        length_delimited_value b \<Rightarrow>
          if field_tag f = t then Some (b, fs) else next_length_delimited t fs
      | _ \<Rightarrow> next_length_delimited t fs)"

text \<open>\<open>reader.next(tag, varint)\<close> followed by \<open>reader.get_uint64()\<close>.\<close>

fun next_varint :: "u32 \<Rightarrow> pbf_message \<Rightarrow> (u64 \<times> pbf_message) option" where
  "next_varint t [] = None"
| "next_varint t (f # fs) =
     (case field_payload f of
        varint_value v \<Rightarrow> if field_tag f = t then Some (v, fs) else next_varint t fs
      | _ \<Rightarrow> next_varint t fs)"

text \<open>
  Modelled from the spec: the field numbers of \<open>detail::pbf_layer\<close> and
  \<open>detail::pbf_feature\<close> (declared in \<open>types.hpp\<close>).
\<close>

definition pbf_layer_name :: u32 where "pbf_layer_name = 1"
definition pbf_layer_features :: u32 where "pbf_layer_features = 2"
definition pbf_layer_keys :: u32 where "pbf_layer_keys = 3"
definition pbf_layer_values :: u32 where "pbf_layer_values = 4"
definition pbf_layer_extent :: u32 where "pbf_layer_extent = 5"
definition pbf_layer_version :: u32 where "pbf_layer_version = 15"

definition pbf_feature_id :: u32 where "pbf_feature_id = 1"
definition pbf_feature_tags :: u32 where "pbf_feature_tags = 2"
definition pbf_feature_type :: u32 where "pbf_feature_type = 3"
definition pbf_feature_geometry :: u32 where "pbf_feature_geometry = 4"

section \<open>Class \<open>layer\<close> (\<open>layer.hpp\<close>)\<close>

text \<open>
  Modelled from the spec: a property value view is a view over a single value record
  (\<open>property_value_view.hpp\<close>); a feature (\<open>feature.hpp\<close>) is made from a layer and the
  bytes of a feature record and is parsed only on access; \<open>invalid_feature\<close> is the
  default-constructed \<open>feature{}\<close>. The pointer to the layer is not modelled.
\<close>

datatype property_value_view = property_value_view data_view

datatype feature = invalid_feature | feature data_view

text \<open>
  \<open>std::size_t\<close> counters are natural numbers: each counts records of a slice that is
  held in memory, so it cannot wrap around.
\<close>

record layer =
  m_data :: data_view
  m_version :: u32
  m_extent :: u32
  m_num_features :: nat
  m_name :: data_view
  m_layer_reader :: pbf_message
  m_key_table :: "data_view list"
  m_value_table :: "property_value_view list"
  m_key_table_size :: nat
  m_value_table_size :: nat

text \<open>The default member initializers; \<open>layer() = default\<close> is \<open>layer_default rd null_view\<close>.\<close>

definition layer_default :: "codec \<Rightarrow> data_view \<Rightarrow> layer" where
  "layer_default rd data =
     \<lparr>m_data = data, m_version = 1, m_extent = 4096, m_num_features = 0,
      m_name = null_view, m_layer_reader = pbf_message rd data,
      m_key_table = [], m_value_table = [],
      m_key_table_size = 0, m_value_table_size = 0\<rparr>"

definition unknown_field :: "pbf_field \<Rightarrow> error" where
  "unknown_field f =
     format_exception (''unknown field in layer (tag='' @ to_string (unat (field_tag f))
       @ '', type='' @ to_string (wire_type_number (wire_type (field_payload f))) @ '')'')"

text \<open>
  The \<open>switch (reader.tag_and_type())\<close> of the constructor: the case labels are pairs of
  a tag and a wire type, so the wire type is matched first and the tag within it.
\<close>

definition layer_field :: "pbf_field \<Rightarrow> layer \<Rightarrow> error + layer" where
  "layer_field f l =
     (case field_payload f of
        varint_value v \<Rightarrow>
          if field_tag f = pbf_layer_version then Inr (l\<lparr>m_version := ucast v\<rparr>)
          else if field_tag f = pbf_layer_extent then Inr (l\<lparr>m_extent := ucast v\<rparr>)
          else Inl (unknown_field f)
      | length_delimited_value b \<Rightarrow>
          if field_tag f = pbf_layer_name then Inr (l\<lparr>m_name := view b\<rparr>)
          else if field_tag f = pbf_layer_features
          then Inr (l\<lparr>m_num_features := m_num_features l + 1\<rparr>)
          else if field_tag f = pbf_layer_keys
          then Inr (l\<lparr>m_key_table_size := m_key_table_size l + 1\<rparr>)
          else if field_tag f = pbf_layer_values
          then Inr (l\<lparr>m_value_table_size := m_value_table_size l + 1\<rparr>)
          else Inl (unknown_field f)
      | _ \<Rightarrow> Inl (unknown_field f))"

text \<open>The loop \<open>while (reader.next())\<close> of the constructor.\<close>

fun layer_scan :: "pbf_message \<Rightarrow> layer \<Rightarrow> error + layer" where
  "layer_scan [] l = Inr l"
| "layer_scan (f # fs) l =
     (case layer_field f l of Inl e \<Rightarrow> Inl e | Inr l' \<Rightarrow> layer_scan fs l')"

text \<open>The constructor \<open>layer(const data_view data)\<close>.\<close>

definition layer_ctor :: "codec \<Rightarrow> data_view \<Rightarrow> error + layer" where
  "layer_ctor rd data =
     (case layer_scan (pbf_message rd data) (layer_default rd data) of
        Inl e \<Rightarrow> Inl e
      | Inr l \<Rightarrow>
          if m_version l < 1 \<or> m_version l > 2 then Inl (version_exception (m_version l))
          else if m_name l = null_view
          then Inl (format_exception ''missing name field in layer (spec 4.1)'')
          else Inr l)"

definition valid :: "layer \<Rightarrow> bool" where
  "valid l = (m_data l \<noteq> null_view)"

text \<open>The loop of \<open>initialize_tables\<close>; \<open>reserve\<close> does not change a vector's content.\<close>

fun tables_scan :: "pbf_message \<Rightarrow> layer \<Rightarrow> layer" where
  "tables_scan [] l = l"
| "tables_scan (f # fs) l =
     (case field_payload f of
        length_delimited_value b \<Rightarrow>
          if field_tag f = pbf_layer_keys
          then tables_scan fs (l\<lparr>m_key_table := m_key_table l @ [view b]\<rparr>)
          else if field_tag f = pbf_layer_values
          then tables_scan fs
                 (l\<lparr>m_value_table := m_value_table l @ [property_value_view (view b)]\<rparr>)
          else tables_scan fs l
      | _ \<Rightarrow> tables_scan fs l)"

definition initialize_tables :: "codec \<Rightarrow> layer \<Rightarrow> layer" where
  "initialize_tables rd l =
     tables_scan (pbf_message rd (m_data l))
       (l\<lparr>m_key_table_size := 0, m_value_table_size := 0\<rparr>)"

text \<open>
  The accessors are \<open>const\<close> and write the \<open>mutable\<close> members: they return the vector
  and the layer as it is after the call.
\<close>

definition key_table :: "codec \<Rightarrow> layer \<Rightarrow> error + (data_view list \<times> layer)" where
  "key_table rd l =
     (if \<not> valid l then Inl assert_error
      else (let l' = (if m_key_table_size l > 0 then initialize_tables rd l else l)
            in Inr (m_key_table l', l')))"

definition value_table :: "codec \<Rightarrow> layer \<Rightarrow> error + (property_value_view list \<times> layer)" where
  "value_table rd l =
     (if \<not> valid l then Inl assert_error
      else (let l' = (if m_value_table_size l > 0 then initialize_tables rd l else l)
            in Inr (m_value_table l', l')))"

definition next_feature :: "layer \<Rightarrow> error + (feature \<times> layer)" where
  "next_feature l =
     (if \<not> valid l then Inl assert_error
      else case next_length_delimited pbf_layer_features (m_layer_reader l) of
        None \<Rightarrow> Inr (invalid_feature, l\<lparr>m_layer_reader := []\<rparr>)
      | Some (b, rest) \<Rightarrow> Inr (feature (view b), l\<lparr>m_layer_reader := rest\<rparr>))"

definition reset_feature :: "codec \<Rightarrow> layer \<Rightarrow> error + layer" where
  "reset_feature rd l =
     (if \<not> valid l then Inl assert_error
      else Inr (l\<lparr>m_layer_reader := pbf_message rd (m_data l)\<rparr>))"

text \<open>
  The loop of \<open>get_feature_by_id\<close> over its local \<open>layer_reader\<close>, with a local
  \<open>feature_reader\<close> for each feature record.
\<close>

function feature_by_id_loop :: "codec \<Rightarrow> u64 \<Rightarrow> pbf_message \<Rightarrow> feature" where
  "feature_by_id_loop rd ident layer_reader =
     (case next_length_delimited pbf_layer_features layer_reader of
        None \<Rightarrow> invalid_feature
      | Some (feature_data, rest) \<Rightarrow>
          (case next_varint pbf_feature_id (pbf_message rd (view feature_data)) of
             Some (v, _) \<Rightarrow>
               if v = ident then feature (view feature_data)
               else feature_by_id_loop rd ident rest
           | None \<Rightarrow> feature_by_id_loop rd ident rest))"
  by pat_completeness auto
termination
proof -
  have shorter: "next_length_delimited t fs = Some (b, rest) \<Longrightarrow> length rest < length fs"
    for t fs b rest
    by (induction fs) (auto split: pbf_payload.splits if_splits)
  show ?thesis
    by (relation "measure (\<lambda>(rd, ident, layer_reader). length layer_reader)")
       (auto dest: shorter)
qed

declare feature_by_id_loop.simps [simp del]

text \<open>
  \<open>get_feature_by_id\<close> is \<open>const\<close> and writes no member: the layer after the call is the
  layer before it.
\<close>

definition get_feature_by_id :: "codec \<Rightarrow> layer \<Rightarrow> u64 \<Rightarrow> error + (feature \<times> layer)" where
  "get_feature_by_id rd l ident =
     (if \<not> valid l then Inl assert_error
      else Inr (feature_by_id_loop rd ident (pbf_message rd (m_data l)), l))"

text \<open>
  Modelled from the spec: \<open>feature::id()\<close> (in \<open>feature.hpp\<close>) is the id of the feature
  record, and 0 when the record has no id field.
\<close>

definition feature_id :: "codec \<Rightarrow> feature \<Rightarrow> u64" where
  "feature_id rd f =
     (case f of
        invalid_feature \<Rightarrow> 0
      | feature data \<Rightarrow>
          (case next_varint pbf_feature_id (pbf_message rd data) of
             None \<Rightarrow> 0
           | Some (v, _) \<Rightarrow> v))"

section \<open>What the specification says of a decoded geometry\<close>

text \<open>
  The definitions of this section follow the words of the specification; the theorems
  below compare them with the decoders above.

  A \<open>GeometryError\<close>: the call raised a \<open>geometry_exception\<close>.
\<close>

fun geometry_error :: "'a decoded \<Rightarrow> bool" where
  "geometry_error (Inl (geometry_exception msg, h)) = True"
| "geometry_error _ = False"

text \<open>Parameter integers come in pairs \<open>(dX, dY)\<close>.\<close>

type_synonym param_pair = "u32 \<times> u32"

fun flat :: "param_pair list \<Rightarrow> u32 list" where
  "flat [] = []"
| "flat ((a, b) # ps) = a # b # flat ps"

fun pairs :: "u32 list \<Rightarrow> param_pair list" where
  "pairs (a # b # rest) = (a, b) # pairs rest"
| "pairs _ = []"

text \<open>The cursor moved by the zigzag-decoded deltas of one pair.\<close>

definition move :: "point \<Rightarrow> param_pair \<Rightarrow> point" where
  "move c p = \<lparr>point_x = point_x c + decode_zigzag32 (fst p),
              point_y = point_y c + decode_zigzag32 (snd p)\<rparr>"

text \<open>The positions of the running cursor, one for each pair.\<close>

fun path :: "point \<Rightarrow> param_pair list \<Rightarrow> point list" where
  "path c [] = []"
| "path c (p # ps) = move c p # path (move c p) ps"

text \<open>The cursor after a list of pairs: where it was, moved by each pair in turn.\<close>

definition cursor_after :: "point \<Rightarrow> param_pair list \<Rightarrow> point" where
  "cursor_after c ps = foldl move c ps"

text \<open>
  The sum of all zigzag-decoded deltas of a list of pairs, the cursor starting at
  \<open>(0, 0)\<close>; \<open>cursor_points\<close> are these sums after the first pair, after the first two,
  and so on.
\<close>

definition delta_sum :: "param_pair list \<Rightarrow> point" where
  "delta_sum ps = \<lparr>point_x = sum_list (map (\<lambda>p. decode_zigzag32 (fst p)) ps),
                   point_y = sum_list (map (\<lambda>p. decode_zigzag32 (snd p)) ps)\<rparr>"

definition cursor_points :: "param_pair list \<Rightarrow> point list" where
  "cursor_points ps = map (\<lambda>k. delta_sum (take (Suc k) ps)) [0..<length ps]"

text \<open>
  A point geometry is well-formed when it is a single MoveTo command with a count of at
  least 1, followed by exactly count parameter pairs and nothing else.
\<close>

fun point_stream_ok :: "u32 list \<Rightarrow> bool" where
  "point_stream_ok [] = False"
| "point_stream_ok (ci # params) =
     (get_command_id ci = 1 \<and> 1 \<le> get_command_count ci
      \<and> length params = 2 * unat (get_command_count ci))"

fun point_events :: "u32 list \<Rightarrow> event list" where
  "point_events [] = []"
| "point_events (ci # params) =
     points_begin (get_command_count ci) # map points_point (cursor_points (pairs params))
       @ [points_end]"

text \<open>A pair whose two decoded deltas are zero: two consecutive equal points.\<close>

definition zero_pair :: "param_pair \<Rightarrow> bool" where
  "zero_pair p = (decode_zigzag32 (fst p) = 0 \<and> decode_zigzag32 (snd p) = 0)"

text \<open>
  A linestring or a ring is given by the parameter pair of its MoveTo command and the
  parameter pairs of its LineTo command.
\<close>

type_synonym line_spec = "param_pair \<times> param_pair list"

definition line_count :: "line_spec \<Rightarrow> u32" where
  "line_count r = of_nat (length (snd r))"

text \<open>The count of a command is a 29-bit number.\<close>

definition count_fits :: "line_spec \<Rightarrow> bool" where
  "count_fits r = (length (snd r) < 2 ^ 29)"

definition has_zero_pair :: "line_spec \<Rightarrow> bool" where
  "has_zero_pair r = list_ex zero_pair (snd r)"

definition start_of :: "point \<Rightarrow> line_spec \<Rightarrow> point" where
  "start_of c r = move c (fst r)"

text \<open>The cursor after a linestring or ring: ClosePath does not move it.\<close>

definition end_cursor :: "point \<Rightarrow> line_spec \<Rightarrow> point" where
  "end_cursor c r = cursor_after (start_of c r) (snd r)"

subsection \<open>Linestrings\<close>

definition linestring_stream :: "line_spec \<Rightarrow> u32 list" where
  "linestring_stream r =
     [command_move_to 1, fst (fst r), snd (fst r), command_line_to (line_count r)]
       @ flat (snd r)"

fun linestrings_stream :: "line_spec list \<Rightarrow> u32 list" where
  "linestrings_stream [] = []"
| "linestrings_stream (r # rs) = linestring_stream r @ linestrings_stream rs"

text \<open>
  Each pair of commands emits a linestring: the MoveTo point first, then the LineTo
  points; no closing point.
\<close>

definition linestring_events :: "point \<Rightarrow> line_spec \<Rightarrow> event list" where
  "linestring_events c r =
     linestring_begin (line_count r + 1)
       # map linestring_point (start_of c r # path (start_of c r) (snd r))
       @ [linestring_end]"

fun linestrings_events :: "point \<Rightarrow> line_spec list \<Rightarrow> event list" where
  "linestrings_events c [] = []"
| "linestrings_events c (r # rs) =
     linestring_events c r @ linestrings_events (end_cursor c r) rs"

text \<open>LineTo count at least 1; in strict mode no two consecutive equal points.\<close>

definition linestring_ok :: "bool \<Rightarrow> line_spec \<Rightarrow> bool" where
  "linestring_ok strict r =
     (count_fits r \<and> 1 \<le> length (snd r) \<and> (strict \<longrightarrow> \<not> has_zero_pair r))"

subsection \<open>Polygons\<close>

definition ring_stream :: "line_spec \<Rightarrow> u32 list" where
  "ring_stream r =
     [command_move_to 1, fst (fst r), snd (fst r), command_line_to (line_count r)]
       @ flat (snd r) @ [command_close_path 1]"

fun polygon_stream :: "line_spec list \<Rightarrow> u32 list" where
  "polygon_stream [] = []"
| "polygon_stream (r # rs) = ring_stream r @ polygon_stream rs"

text \<open>
  The points of a ring as they are emitted: the start point, the LineTo points, and the
  start point again.
\<close>

definition ring_points :: "point \<Rightarrow> line_spec \<Rightarrow> point list" where
  "ring_points c r = start_of c r # path (start_of c r) (snd r) @ [start_of c r]"

text \<open>
  The shoelace sum of a sequence of points: the sum of \<open>det(p_prev, p_next)\<close> over all
  consecutive segments, in 64-bit signed arithmetic. On \<open>ring_points\<close>, whose last point
  is the start point, the last segment is the implicit closing segment.
\<close>

fun shoelace :: "point list \<Rightarrow> i64" where
  "shoelace (p # q # ps) = det p q + shoelace (q # ps)"
| "shoelace _ = 0"

text \<open>A ring is outer when its shoelace sum is positive, and not outer otherwise.\<close>

definition is_outer :: "point \<Rightarrow> line_spec \<Rightarrow> bool" where
  "is_outer c r = (0 <s shoelace (ring_points c r))"

definition ring_events :: "point \<Rightarrow> line_spec \<Rightarrow> event list" where
  "ring_events c r =
     ring_begin (line_count r + 2) # map ring_point (ring_points c r)
       @ [ring_end (is_outer c r)]"

fun polygon_events :: "point \<Rightarrow> line_spec list \<Rightarrow> event list" where
  "polygon_events c [] = []"
| "polygon_events c (r # rs) = ring_events c r @ polygon_events (end_cursor c r) rs"

text \<open>
  What \<open>decode_polygon_geometry\<close> asks of a ring: in strict mode a LineTo count greater
  than 1 and no two consecutive equal points; otherwise nothing beyond a count that fits
  the command integer.
\<close>

definition ring_ok :: "bool \<Rightarrow> line_spec \<Rightarrow> bool" where
  "ring_ok strict r =
     (count_fits r \<and> (strict \<longrightarrow> 1 < length (snd r) \<and> \<not> has_zero_pair r))"

section \<open>What the specification says of a layer\<close>

text \<open>
  The fields a layer may have: \<open>version\<close> and \<open>extent\<close> as varints, \<open>name\<close>,
  \<open>features\<close>, \<open>keys\<close> and \<open>values\<close> as length-delimited fields.
\<close>

definition known_layer_field :: "pbf_field \<Rightarrow> bool" where
  "known_layer_field f =
     (case field_payload f of
        varint_value v \<Rightarrow> field_tag f = pbf_layer_version \<or> field_tag f = pbf_layer_extent
      | length_delimited_value b \<Rightarrow>
          field_tag f = pbf_layer_name \<or> field_tag f = pbf_layer_features
          \<or> field_tag f = pbf_layer_keys \<or> field_tag f = pbf_layer_values
      | _ \<Rightarrow> False)"

text \<open>The payload of a length-delimited field with the given tag.\<close>

definition delimited_field :: "u32 \<Rightarrow> pbf_field \<Rightarrow> bytes option" where
  "delimited_field t f =
     (case field_payload f of
        length_delimited_value b \<Rightarrow> if field_tag f = t then Some b else None
      | _ \<Rightarrow> None)"

text \<open>The value of a varint field with the given tag.\<close>

definition varint_field :: "u32 \<Rightarrow> pbf_field \<Rightarrow> u64 option" where
  "varint_field t f =
     (case field_payload f of
        varint_value v \<Rightarrow> if field_tag f = t then Some v else None
      | _ \<Rightarrow> None)"

definition has_name :: "pbf_message \<Rightarrow> bool" where
  "has_name fs = list_ex (\<lambda>f. delimited_field pbf_layer_name f \<noteq> None) fs"


text \<open>
  The version a layer record declares: that of its version field, read as a 32-bit
  unsigned number (the last one, should there be several), and 1 when it has none.
\<close>

fun version_from :: "u32 \<Rightarrow> pbf_message \<Rightarrow> u32" where
  "version_from v [] = v"
| "version_from v (f # fs) =
     version_from (case varint_field pbf_layer_version f of Some x \<Rightarrow> ucast x | None \<Rightarrow> v) fs"

definition declared_version :: "pbf_message \<Rightarrow> u32" where
  "declared_version fs = version_from 1 fs"

text \<open>The name of a layer record: the payload of its name field (the last one).\<close>

fun name_from :: "data_view \<Rightarrow> pbf_message \<Rightarrow> data_view" where
  "name_from n [] = n"
| "name_from n (f # fs) =
     name_from (case delimited_field pbf_layer_name f of Some b \<Rightarrow> view b | None \<Rightarrow> n) fs"

definition declared_name :: "pbf_message \<Rightarrow> data_view" where
  "declared_name fs = name_from null_view fs"

text \<open>The feature, key and value records of a layer, in the order of the data.\<close>

definition layer_features :: "pbf_message \<Rightarrow> bytes list" where
  "layer_features fs = List.map_filter (delimited_field pbf_layer_features) fs"

definition layer_keys :: "pbf_message \<Rightarrow> data_view list" where
  "layer_keys fs = map view (List.map_filter (delimited_field pbf_layer_keys) fs)"

definition layer_values :: "pbf_message \<Rightarrow> property_value_view list" where
  "layer_values fs =
     map (\<lambda>b. property_value_view (view b))
       (List.map_filter (delimited_field pbf_layer_values) fs)"

subsection \<open>Calls of the table accessors\<close>

datatype table_call = call_key_table | call_value_table

text \<open>
  \<open>scans c l\<close>: the call \<open>c\<close> on the layer \<open>l\<close> runs \<open>initialize_tables\<close>, the pass over
  the data; this is the condition of the \<open>if\<close> in the accessor.
\<close>

fun scans :: "table_call \<Rightarrow> layer \<Rightarrow> bool" where
  "scans call_key_table l = (m_key_table_size l > 0)"
| "scans call_value_table l = (m_value_table_size l > 0)"

text \<open>The layer after a call of an accessor.\<close>

fun after_call :: "codec \<Rightarrow> table_call \<Rightarrow> layer \<Rightarrow> layer" where
  "after_call rd call_key_table l = (case key_table rd l of Inl e \<Rightarrow> l | Inr (t, l') \<Rightarrow> l')"
| "after_call rd call_value_table l =
     (case value_table rd l of Inl e \<Rightarrow> l | Inr (t, l') \<Rightarrow> l')"

text \<open>The number of passes over the data that a sequence of calls runs.\<close>

fun passes :: "codec \<Rightarrow> table_call list \<Rightarrow> layer \<Rightarrow> nat" where
  "passes rd [] l = 0"
| "passes rd (c # cs) l = (if scans c l then 1 else 0) + passes rd cs (after_call rd c l)"

subsection \<open>The features that the iteration returns\<close>

text \<open>
  The sequence of features that \<open>next_feature()\<close> returns from this state of the layer
  on, up to the invalid feature.
\<close>

function remaining_features :: "layer \<Rightarrow> feature list" where
  "remaining_features l =
     (case next_feature l of
        Inl e \<Rightarrow> []
      | Inr (f, l') \<Rightarrow>
          (case f of
             invalid_feature \<Rightarrow> []
           | feature v \<Rightarrow> f # remaining_features l'))"
  by pat_completeness auto
termination
proof -
  have shorter: "next_length_delimited t fs = Some (b, rest) \<Longrightarrow> length rest < length fs"
    for t fs b rest
    by (induction fs) (auto split: pbf_payload.splits if_splits)
  show ?thesis
    by (relation "measure (\<lambda>l. length (m_layer_reader l))")
       (auto simp: next_feature_def split: if_splits option.splits dest: shorter)
qed

declare remaining_features.simps [simp del]

subsection \<open>A codec for the examples\<close>

text \<open>
  A codec that knows the slices of the examples below: what the protobuf wire format
  makes of these bytes. \<open>[10, 0]\<close> is a layer with an empty name and nothing else;
  \<open>example_layer\<close> has the name \<open>a\<close>, version 2, a feature with the id 7, a feature with
  no id field and one value; \<open>[120, 3, 10, 1, 97]\<close> is a layer of version 3.
\<close>

definition example_layer :: bytes where
  "example_layer = [120, 2, 10, 1, 97, 18, 2, 8, 7, 18, 2, 24, 1, 34, 2, 56, 1]"

definition example_codec :: codec where
  "example_codec bs =
     (if bs = [10, 0] then [pbf_field 1 (length_delimited_value [])]
      else if bs = example_layer
      then [pbf_field 15 (varint_value 2), pbf_field 1 (length_delimited_value [97]),
            pbf_field 2 (length_delimited_value [8, 7]),
            pbf_field 2 (length_delimited_value [24, 1]),
            pbf_field 4 (length_delimited_value [56, 1])]
      else if bs = [120, 3, 10, 1, 97]
      then [pbf_field 15 (varint_value 3), pbf_field 1 (length_delimited_value [97])]
      else if bs = [8, 7] then [pbf_field 1 (varint_value 7)]
      else if bs = [24, 1] then [pbf_field 3 (varint_value 1)]
      else if bs = [56, 1] then [pbf_field 7 (varint_value 1)]
      else [])"

text \<open>The layer that the constructor makes of \<open>example_layer\<close>.\<close>

definition example_layer_read :: layer where
  "example_layer_read =
     \<lparr>m_data = view example_layer, m_version = 2, m_extent = 4096, m_num_features = 2,
      m_name = view [97], m_layer_reader = example_codec example_layer,
      m_key_table = [], m_value_table = [], m_key_table_size = 0, m_value_table_size = 1\<rparr>"

section \<open>Properties of the geometry decoder\<close>

subsection \<open>Command integers\<close>

lemma seven_mask: "(7::u32) = mask 3"
  by (simp add: mask_eq_exp_minus_1)

lemma get_command_id_integer: "get_command_id (command_integer k c) = k AND 7"
  unfolding get_command_id_def command_integer_def seven_mask
  by (rule bit_word_eqI) (auto simp: bit_simps)

lemma get_command_count_integer:
  assumes "c < 2 ^ 29"
  shows "get_command_count (command_integer k c) = c"
proof -
  from assms have c: "take_bit 29 c = c"
    by (simp add: take_bit_eq_mask less_mask_eq)
  have "drop_bit 3 ((k AND mask 3) OR push_bit 3 (take_bit 29 c)) = take_bit 29 c"
    by (rule bit_word_eqI) (auto simp: bit_simps)
  with c show ?thesis
    by (simp add: get_command_count_def command_integer_def seven_mask)
qed

lemma command_ids [simp]:
  "get_command_id (command_move_to c) = 1"
  "get_command_id (command_line_to c) = 2"
  "get_command_id (command_close_path c) = 7"
  by (simp_all add: get_command_id_integer command_move_to_def command_line_to_def
        command_close_path_def)

lemma command_zero [simp]:
  "command_move_to 0 = 1" "command_line_to 0 = 2" "command_close_path 0 = 7"
  by (simp_all add: command_integer_def command_move_to_def command_line_to_def
        command_close_path_def)

lemma command_counts:
  "c < 2 ^ 29 \<Longrightarrow> get_command_count (command_move_to c) = c"
  "c < 2 ^ 29 \<Longrightarrow> get_command_count (command_line_to c) = c"
  "c < 2 ^ 29 \<Longrightarrow> get_command_count (command_close_path c) = c"
  by (simp_all add: get_command_count_integer command_move_to_def command_line_to_def
        command_close_path_def)

lemma count_one [simp]:
  "get_command_count (command_move_to 1) = 1"
  "get_command_count (command_close_path 1) = 1"
  by (simp_all add: command_counts)

lemma unat_line_count: "count_fits r \<Longrightarrow> unat (line_count r) = length (snd r)"
  by (simp add: count_fits_def line_count_def unat_of_nat)

lemma line_count_fits: "count_fits r \<Longrightarrow> line_count r < 2 ^ 29"
  by (simp add: count_fits_def line_count_def word_less_nat_alt unat_of_nat)

lemma line_to_count [simp]:
  "count_fits r \<Longrightarrow> get_command_count (command_line_to (line_count r)) = line_count r"
  by (rule command_counts(2) [OF line_count_fits])

lemma unat_pred: "unat (c::u32) = Suc n \<Longrightarrow> unat (c - 1) = n"
  by (simp add: unat_minus_one unat_eq_zero [symmetric])

lemma unat_Suc_nonzero: "unat (c::u32) = Suc n \<Longrightarrow> c \<noteq> 0"
  by auto

subsection \<open>One step of the decoder\<close>

lemma next_point_step:
  assumes "cnt \<noteq> 0" and "\<not> (s \<and> k = 2 \<and> zero_pair (a, b))"
  shows "next_point \<lparr>m_it = a # b # rest, m_cursor = c, m_command_id = k, m_count = cnt,
                     m_strict = s\<rparr>
         = Inr (move c (a, b),
                \<lparr>m_it = rest, m_cursor = move c (a, b), m_command_id = k, m_count = cnt - 1,
                 m_strict = s\<rparr>)"
  using assms
  by (auto simp: next_point_def Let_def move_def zero_pair_def word_greater_zero_iff)

lemma next_point_zero_pair:
  assumes "cnt \<noteq> 0" and "zero_pair (a, b)"
  shows "next_point \<lparr>m_it = a # b # rest, m_cursor = c, m_command_id = 2, m_count = cnt,
                     m_strict = True\<rparr>
         = Inl (geometry_exception
                  ''found consecutive equal points (spec 4.3.3.2) (strict mode)'')"
  using assms
  by (auto simp: next_point_def Let_def zero_pair_def word_greater_zero_iff)

lemma next_point_short:
  assumes "cnt \<noteq> 0" and "length xs < 2"
  shows "next_point \<lparr>m_it = xs, m_cursor = c, m_command_id = k, m_count = cnt, m_strict = s\<rparr>
         = Inl (geometry_exception ''too few points in geometry'')"
proof -
  from assms(2) consider "xs = []" | a where "xs = [a]"
    by (cases xs; cases "tl xs") auto
  then show ?thesis
    using assms(1) by cases (auto simp: next_point_def word_greater_zero_iff)
qed

lemma next_command_end:
  "next_command e \<lparr>m_it = [], m_cursor = c, m_command_id = k, m_count = 0, m_strict = s\<rparr>
   = Inr (False, \<lparr>m_it = [], m_cursor = c, m_command_id = k, m_count = 0, m_strict = s\<rparr>)"
  by (simp add: next_command_def)

lemma next_command_step:
  assumes "get_command_id ci = e" and "e \<noteq> 7"
  shows "next_command e \<lparr>m_it = ci # rest, m_cursor = c, m_command_id = k, m_count = 0,
                          m_strict = s\<rparr>
         = Inr (True, \<lparr>m_it = rest, m_cursor = c, m_command_id = e,
                       m_count = get_command_count ci, m_strict = s\<rparr>)"
  using assms by (simp add: next_command_def check_expected_def Let_def)

lemma next_command_close:
  assumes "get_command_id ci = 7" and "get_command_count ci = 1"
  shows "next_command 7 \<lparr>m_it = ci # rest, m_cursor = c, m_command_id = k, m_count = 0,
                          m_strict = s\<rparr>
         = Inr (True, \<lparr>m_it = rest, m_cursor = c, m_command_id = 7, m_count = 0,
                       m_strict = s\<rparr>)"
  using assms by (simp add: next_command_def check_expected_def Let_def)

lemma next_command_close_count:
  assumes "get_command_id ci = 7" and "get_command_count ci \<noteq> 1"
  shows "next_command e \<lparr>m_it = ci # rest, m_cursor = c, m_command_id = k, m_count = 0,
                          m_strict = s\<rparr>
         = Inl (geometry_exception ''ClosePath command count is not 1'')"
  using assms by (simp add: next_command_def Let_def)

lemma next_command_unexpected:
  assumes "get_command_id ci \<noteq> e"
  shows "\<exists>msg. next_command e \<lparr>m_it = ci # rest, m_cursor = c, m_command_id = k, m_count = 0,
                          m_strict = s\<rparr>
         = Inl (geometry_exception msg)"
  using assms by (auto simp: next_command_def check_expected_def Let_def)

subsection \<open>Pairs and cursors\<close>

lemma flat_pairs: "even (length xs) \<Longrightarrow> flat (pairs xs) = xs"
  by (induction xs rule: pairs.induct) auto

lemma length_flat [simp]: "length (flat ps) = 2 * length ps"
  by (induction ps rule: flat.induct) auto

lemma pairs_flat [simp]: "pairs (flat ps) = ps"
  by (induction ps rule: flat.induct) auto

lemma length_path [simp]: "length (path c ps) = length ps"
  by (induction ps arbitrary: c) auto

lemma cursor_after_Cons [simp]: "cursor_after c (p # ps) = cursor_after (move c p) ps"
  by (simp add: cursor_after_def)

lemma cursor_after_Nil [simp]: "cursor_after c [] = c"
  by (simp add: cursor_after_def)

lemma last_path: "last (c # path c ps) = cursor_after c ps"
  by (induction ps arbitrary: c) auto

lemma path_cursor_after:
  "path c ps = map (\<lambda>k. cursor_after c (take (Suc k) ps)) [0..<length ps]"
proof (induction ps arbitrary: c)
  case Nil
  show ?case by simp
next
  case (Cons p ps)
  have "map (\<lambda>k. cursor_after c (take (Suc k) (p # ps))) [0..<length (p # ps)]
        = cursor_after c [p] # map (\<lambda>k. cursor_after (move c p) (take (Suc k) ps)) [0..<length ps]"
    by (simp add: map_upt_Suc del: upt_Suc)
  with Cons.IH [of "move c p"] show ?case
    by simp
qed

lemma cursor_after_sum:
  "cursor_after c ps =
     \<lparr>point_x = point_x c + sum_list (map (\<lambda>p. decode_zigzag32 (fst p)) ps),
      point_y = point_y c + sum_list (map (\<lambda>p. decode_zigzag32 (snd p)) ps)\<rparr>"
  by (induction ps arbitrary: c) (simp_all add: move_def add.assoc)

lemma cursor_after_zero: "cursor_after point_zero ps = delta_sum ps"
  by (simp add: cursor_after_sum delta_sum_def point_zero_def)

lemma path_zero: "path point_zero ps = cursor_points ps"
  by (simp add: path_cursor_after cursor_points_def cursor_after_zero)

subsection \<open>The loop over the points of one command\<close>

lemma points_loop_run:
  assumes "unat cnt = length ps" and "\<not> (s \<and> k = 2 \<and> list_ex zero_pair ps)"
  shows "points_loop \<lparr>m_it = flat ps @ rest, m_cursor = c, m_command_id = k, m_count = cnt,
                      m_strict = s\<rparr> h
         = Inr (\<lparr>m_it = rest, m_cursor = cursor_after c ps, m_command_id = k, m_count = 0,
                 m_strict = s\<rparr>, h @ map points_point (path c ps))"
  using assms
proof (induction ps arbitrary: c cnt h)
  case Nil
  then have "cnt = 0"
    by (simp add: unat_eq_zero)
  then show ?case
    by (subst points_loop.simps) (simp add: count_def)
next
  case (Cons p ps)
  obtain a b where p: "p = (a, b)"
    by (cases p)
  from Cons.prems have cnt: "cnt \<noteq> 0" "unat (cnt - 1) = length ps"
    by (auto simp: unat_pred)
  from Cons.prems p have ok: "\<not> (s \<and> k = 2 \<and> zero_pair (a, b))"
    "\<not> (s \<and> k = 2 \<and> list_ex zero_pair ps)"
    by auto
  show ?case
    by (subst points_loop.simps)
       (simp add: p count_def cnt word_greater_zero_iff next_point_step [OF cnt(1) ok(1)]
          Cons.IH [OF cnt(2) ok(2)])
qed

lemma points_loop_short:
  assumes "unat cnt = n" and "length xs < 2 * n" and "k \<noteq> 2"
  shows "\<exists>h'. points_loop \<lparr>m_it = xs, m_cursor = c, m_command_id = k, m_count = cnt,
                           m_strict = s\<rparr> h
              = Inl (geometry_exception ''too few points in geometry'', h')"
  using assms
proof (induction n arbitrary: xs c cnt h)
  case 0
  then show ?case by simp
next
  case (Suc n)
  from Suc.prems have cnt: "cnt \<noteq> 0" "unat (cnt - 1) = n"
    by (auto simp: unat_pred)
  show ?case
  proof (cases "length xs < 2")
    case True
    show ?thesis
      by (subst points_loop.simps)
         (simp add: count_def cnt word_greater_zero_iff next_point_short [OF cnt(1) True])
  next
    case False
    then obtain a b rest where xs: "xs = a # b # rest"
      by (cases xs; cases "tl xs") auto
    from Suc.prems xs have len: "length rest < 2 * n"
      by simp
    from \<open>k \<noteq> 2\<close> have ok: "\<not> (s \<and> k = 2 \<and> zero_pair (a, b))"
      by simp
    from Suc.IH [OF cnt(2) len \<open>k \<noteq> 2\<close>, of "move c (a, b)" "h @ [points_point (move c (a, b))]"]
    show ?thesis
      by (subst points_loop.simps)
         (simp add: xs count_def cnt word_greater_zero_iff next_point_step [OF cnt(1) ok])
  qed
qed

lemma linestring_loop_run:
  assumes "unat cnt = length ps" and "\<not> (s \<and> k = 2 \<and> list_ex zero_pair ps)"
  shows "linestring_loop \<lparr>m_it = flat ps @ rest, m_cursor = c, m_command_id = k,
                          m_count = cnt, m_strict = s\<rparr> h
         = Inr (\<lparr>m_it = rest, m_cursor = cursor_after c ps, m_command_id = k, m_count = 0,
                 m_strict = s\<rparr>, h @ map linestring_point (path c ps))"
  using assms
proof (induction ps arbitrary: c cnt h)
  case Nil
  then have "cnt = 0"
    by (simp add: unat_eq_zero)
  then show ?case
    by (subst linestring_loop.simps) (simp add: count_def)
next
  case (Cons p ps)
  obtain a b where p: "p = (a, b)"
    by (cases p)
  from Cons.prems have cnt: "cnt \<noteq> 0" "unat (cnt - 1) = length ps"
    by (auto simp: unat_pred)
  from Cons.prems p have ok: "\<not> (s \<and> k = 2 \<and> zero_pair (a, b))"
    "\<not> (s \<and> k = 2 \<and> list_ex zero_pair ps)"
    by auto
  show ?case
    by (subst linestring_loop.simps)
       (simp add: p count_def cnt word_greater_zero_iff next_point_step [OF cnt(1) ok(1)]
          Cons.IH [OF cnt(2) ok(2)])
qed

lemma linestring_loop_strict:
  assumes "unat cnt = length ps" and "list_ex zero_pair ps"
  shows "geometry_error (linestring_loop \<lparr>m_it = flat ps @ rest, m_cursor = c,
           m_command_id = 2, m_count = cnt, m_strict = True\<rparr> h)"
  using assms
proof (induction ps arbitrary: c cnt h)
  case Nil
  then show ?case by simp
next
  case (Cons p ps)
  obtain a b where p: "p = (a, b)"
    by (cases p)
  from Cons.prems have cnt: "cnt \<noteq> 0" "unat (cnt - 1) = length ps"
    by (auto simp: unat_pred)
  show ?case
  proof (cases "zero_pair (a, b)")
    case True
    show ?thesis
      by (subst linestring_loop.simps)
         (simp add: p count_def cnt word_greater_zero_iff next_point_zero_pair [OF cnt(1) True])
  next
    case False
    with Cons.prems p have ex: "list_ex zero_pair ps"
      by simp
    from False have ok: "\<not> (True \<and> (2::u32) = 2 \<and> zero_pair (a, b))"
      by simp
    from Cons.IH [OF cnt(2) ex] show ?thesis
      by (subst linestring_loop.simps)
         (simp add: p count_def cnt word_greater_zero_iff next_point_step [OF cnt(1) ok])
  qed
qed

lemma shoelace_path_Cons:
  "shoelace (c # path c (p # ps)) = det c (move c p) + shoelace (move c p # path (move c p) ps)"
  by simp

lemma ring_loop_run:
  assumes "unat cnt = length ps" and "\<not> (s \<and> k = 2 \<and> list_ex zero_pair ps)"
  shows "ring_loop \<lparr>m_it = flat ps @ rest, m_cursor = c, m_command_id = k, m_count = cnt,
                    m_strict = s\<rparr> acc c h
         = Inr (\<lparr>m_it = rest, m_cursor = cursor_after c ps, m_command_id = k, m_count = 0,
                 m_strict = s\<rparr>,
                acc + shoelace (c # path c ps), cursor_after c ps,
                h @ map ring_point (path c ps))"
  using assms
proof (induction ps arbitrary: c cnt h acc)
  case Nil
  then have "cnt = 0"
    by (simp add: unat_eq_zero)
  then show ?case
    by (subst ring_loop.simps) (simp add: count_def)
next
  case (Cons p ps)
  obtain a b where p: "p = (a, b)"
    by (cases p)
  from Cons.prems have cnt: "cnt \<noteq> 0" "unat (cnt - 1) = length ps"
    by (auto simp: unat_pred)
  from Cons.prems p have ok: "\<not> (s \<and> k = 2 \<and> zero_pair (a, b))"
    "\<not> (s \<and> k = 2 \<and> list_ex zero_pair ps)"
    by auto
  show ?case
    by (subst ring_loop.simps)
       (simp add: p count_def cnt word_greater_zero_iff next_point_step [OF cnt(1) ok(1)]
          Cons.IH [OF cnt(2) ok(2)] add.assoc)
qed

lemma ring_loop_strict:
  assumes "unat cnt = length ps" and "list_ex zero_pair ps"
  shows "geometry_error (ring_loop \<lparr>m_it = flat ps @ rest, m_cursor = c,
           m_command_id = 2, m_count = cnt, m_strict = True\<rparr> acc l h)"
  using assms
proof (induction ps arbitrary: c cnt h acc l)
  case Nil
  then show ?case by simp
next
  case (Cons p ps)
  obtain a b where p: "p = (a, b)"
    by (cases p)
  from Cons.prems have cnt: "cnt \<noteq> 0" "unat (cnt - 1) = length ps"
    by (auto simp: unat_pred)
  show ?case
  proof (cases "zero_pair (a, b)")
    case True
    show ?thesis
      by (subst ring_loop.simps)
         (simp add: p count_def cnt word_greater_zero_iff next_point_zero_pair [OF cnt(1) True])
  next
    case False
    with Cons.prems p have ex: "list_ex zero_pair ps"
      by simp
    from False have ok: "\<not> (True \<and> (2::u32) = 2 \<and> zero_pair (a, b))"
      by simp
    from Cons.IH [OF cnt(2) ex] show ?thesis
      by (subst ring_loop.simps)
         (simp add: p count_def cnt word_greater_zero_iff next_point_step [OF cnt(1) ok])
  qed
qed

lemma shoelace_snoc: "xs \<noteq> [] \<Longrightarrow> shoelace (xs @ [z]) = shoelace xs + det (last xs) z"
  by (induction xs rule: shoelace.induct) (auto simp: add.assoc)

lemma length_pairs [simp]: "length (pairs xs) = length xs div 2"
  by (induction xs rule: pairs.induct) auto

lemma geometry_errorI: "r = Inl (geometry_exception msg, h) \<Longrightarrow> geometry_error r"
  by simp

lemma geometry_errorE:
  assumes "geometry_error r"
  obtains msg h where "r = Inl (geometry_exception msg, h)"
  using assms by (cases r rule: geometry_error.cases) auto

lemma word_one_le: "(1 \<le> (c::u32)) = (c \<noteq> 0)"
  by (simp add: word_le_nat_alt unat_eq_zero [symmetric] Suc_le_eq)

subsection \<open>Point geometries\<close>

text \<open>
  C7: \<open>decode_point_geometry\<close> succeeds exactly on the streams that are a single MoveTo
  command with a count of at least 1 followed by exactly count parameter pairs and
  nothing else. It then emits \<open>points_begin(count)\<close>, one \<open>points_point\<close> for each
  pair, the point being the sum of all decoded deltas up to this pair (the cursor starts
  at \<open>(0, 0)\<close>; sums of \<open>int32_t\<close>), and \<open>points_end\<close>. On every other stream (no
  MoveTo, a count of zero, too few parameters, trailing data) it raises a
  \<open>geometry_exception\<close>. Strict mode makes no difference.
\<close>

theorem decode_point_geometry_spec:
  assumes "geom_type g = POINT"
  shows "if point_stream_ok (geom_data g)
         then decode_point_geometry g strict h = Inr (h @ point_events (geom_data g))
         else geometry_error (decode_point_geometry g strict h)"
proof (cases "geom_data g")
  case Nil
  with assms show ?thesis
    by (simp add: decode_point_geometry_def geometry_decoder_def next_command_end)
next
  case (Cons ci params)
  let ?d0 = "geometry_decoder (geom_data g) strict"
  show ?thesis
  proof (cases "get_command_id ci = 1")
    case False
    from next_command_unexpected [OF False, of params point_zero 0 strict]
    obtain msg where "next_command 1 ?d0 = Inl (geometry_exception msg)"
      by (auto simp: geometry_decoder_def Cons)
    with assms False Cons show ?thesis
      by (simp add: decode_point_geometry_def)
  next
    case True
    let ?cnt = "get_command_count ci"
    let ?d1 = "\<lparr>m_it = params, m_cursor = point_zero, m_command_id = 1, m_count = ?cnt,
                m_strict = strict\<rparr>"
    have start: "next_command 1 ?d0 = Inr (True, ?d1)"
      using next_command_step [OF True, of params point_zero 0 strict]
      by (simp add: geometry_decoder_def Cons)
    show ?thesis
    proof (cases "?cnt = 0")
      case zero: True
      with assms Cons start show ?thesis
        by (simp add: decode_point_geometry_def count_def word_one_le)
    next
      case nonzero: False
      show ?thesis
      proof (cases "length params < 2 * unat ?cnt")
        case short: True
        from points_loop_short [OF refl short, of 1 point_zero strict "h @ [points_begin ?cnt]"]
        obtain h' where "points_loop ?d1 (h @ [points_begin ?cnt])
            = Inl (geometry_exception ''too few points in geometry'', h')"
          by auto
        with assms Cons start nonzero short show ?thesis
          by (simp add: decode_point_geometry_def count_def)
      next
        case enough: False
        let ?n = "2 * unat ?cnt"
        let ?ps = "pairs (take ?n params)"
        let ?rest = "drop ?n params"
        from enough have len: "length (take ?n params) = ?n"
          by simp
        then have params: "params = flat ?ps @ ?rest"
          by (simp add: flat_pairs)
        from len have cnt: "unat ?cnt = length ?ps"
          by simp
        have run: "points_loop ?d1 (h @ [points_begin ?cnt])
            = Inr (\<lparr>m_it = ?rest, m_cursor = cursor_after point_zero ?ps, m_command_id = 1,
                    m_count = 0, m_strict = strict\<rparr>,
                   (h @ [points_begin ?cnt]) @ map points_point (path point_zero ?ps))"
          using points_loop_run [OF cnt, of strict 1 ?rest point_zero "h @ [points_begin ?cnt]"]
            params by simp
        show ?thesis
        proof (cases "?rest = []")
          case all: True
          with enough have exact: "length params = ?n"
            by simp
          then have "take ?n params = params"
            by simp
          with assms Cons start nonzero run all exact True show ?thesis
            by (simp add: decode_point_geometry_def count_def decoder_done_def path_zero
                  word_one_le)
        next
          case more: False
          then have "length params \<noteq> ?n"
            by auto
          with assms Cons start nonzero run more show ?thesis
            by (simp add: decode_point_geometry_def count_def decoder_done_def)
        qed
      qed
    qed
  qed
qed

theorem decode_point_geometry_spec_witness:
  "geom_type \<lparr>geom_data = [17, 6, 12, 1, 4], geom_type = POINT\<rparr> = POINT
   \<and> decode_point_geometry \<lparr>geom_data = [17, 6, 12, 1, 4], geom_type = POINT\<rparr> True []
       = Inr [points_begin 2, points_point \<lparr>point_x = 3, point_y = 6\<rparr>,
              points_point \<lparr>point_x = 2, point_y = 8\<rparr>, points_end]
   \<and> geometry_error
         (decode_point_geometry \<lparr>geom_data = [17, 6, 12, 1], geom_type = POINT\<rparr> True [])"
  using decode_point_geometry_spec [of "\<lparr>geom_data = [17, 6, 12, 1, 4], geom_type = POINT\<rparr>" True "[]"]
    decode_point_geometry_spec [of "\<lparr>geom_data = [17, 6, 12, 1], geom_type = POINT\<rparr>" True "[]"]
  by (simp add: get_command_id_def get_command_count_def cursor_points_def delta_sum_def
        decode_zigzag32_def drop_bit_eq_div)

subsection \<open>One ring\<close>

lemma word_le_one: "((c::u32) \<le> 1) = (unat c \<le> 1)"
  by (simp add: word_le_nat_alt)

lemma ring_sum: "shoelace (c # path c ps) + det (cursor_after c ps) c = shoelace (c # path c ps @ [c])"
  using shoelace_snoc [of "c # path c ps" c] by (simp add: last_path del: last.simps)

lemma decode_polygon_ring_ok:
  assumes "ring_ok s ((a, b), ps)"
  shows "decode_polygon_ring
           \<lparr>m_it = a # b # command_line_to (line_count ((a, b), ps))
                     # flat ps @ command_close_path 1 # tail,
            m_cursor = c, m_command_id = 1, m_count = 1, m_strict = s\<rparr> s h
         = Inr (\<lparr>m_it = tail, m_cursor = end_cursor c ((a, b), ps), m_command_id = 7, m_count = 0,
                 m_strict = s\<rparr>, h @ ring_events c ((a, b), ps))"
proof -
  let ?start = "start_of c ((a, b), ps)"
  from assms have fits: "count_fits ((a, b), ps)"
    by (simp add: ring_ok_def)
  have start: "move c (a, b) = ?start"
    by (simp add: start_of_def)
  have ps: "snd ((a, b), ps) = ps"
    by simp
  have p1: "next_point \<lparr>m_it = a # b # command_line_to (line_count ((a, b), ps))
                # flat ps @ command_close_path 1 # tail,
              m_cursor = c, m_command_id = 1, m_count = 1, m_strict = s\<rparr>
      = Inr (?start, \<lparr>m_it = command_line_to (line_count ((a, b), ps))
                # flat ps @ command_close_path 1 # tail,
              m_cursor = ?start, m_command_id = 1, m_count = 0, m_strict = s\<rparr>)"
    using next_point_step [of 1 s 1 a b _ c] by (simp add: start)
  have c2: "next_command 2 \<lparr>m_it = command_line_to (line_count ((a, b), ps))
                # flat ps @ command_close_path 1 # tail,
              m_cursor = ?start, m_command_id = 1, m_count = 0, m_strict = s\<rparr>
      = Inr (True, \<lparr>m_it = flat ps @ command_close_path 1 # tail,
              m_cursor = ?start, m_command_id = 2, m_count = line_count ((a, b), ps), m_strict = s\<rparr>)"
    using next_command_step [of "command_line_to (line_count ((a, b), ps))" 2] fits by simp
  from assms have big: "\<not> (s \<and> line_count ((a, b), ps) \<le> 1)"
    by (auto simp: ring_ok_def word_le_one unat_line_count)
  from assms have nozero: "\<not> (s \<and> (2::u32) = 2 \<and> list_ex zero_pair ps)"
    by (simp add: ring_ok_def has_zero_pair_def)
  note loop = ring_loop_run [OF unat_line_count [OF fits, unfolded ps] nozero,
      of "command_close_path 1 # tail" ?start 0
         "h @ [ring_begin (line_count ((a, b), ps) + 2), ring_point ?start]"]
  have c3: "next_command 7 \<lparr>m_it = command_close_path 1 # tail,
              m_cursor = cursor_after ?start ps, m_command_id = 2, m_count = 0, m_strict = s\<rparr>
      = Inr (True, \<lparr>m_it = tail, m_cursor = cursor_after ?start ps, m_command_id = 7,
              m_count = 0, m_strict = s\<rparr>)"
    by (rule next_command_close) simp_all
  show ?thesis
    using big
    by (simp add: decode_polygon_ring_def count_def p1 c2 loop c3 Let_def ring_sum
          ring_events_def ring_points_def is_outer_def end_cursor_def)
qed

lemma decode_polygon_ring_count:
  assumes "get_command_id ci = 2" and "get_command_count ci \<le> 1"
  shows "decode_polygon_ring
           \<lparr>m_it = a # b # ci # rest, m_cursor = c, m_command_id = 1, m_count = 1,
            m_strict = True\<rparr> True h
         = Inl (geometry_exception
                  ''LineTo command count is not greater than 1 (spec 4.3.4.4)'', h)"
proof -
  have p1: "next_point \<lparr>m_it = a # b # ci # rest, m_cursor = c, m_command_id = 1,
              m_count = 1, m_strict = True\<rparr>
      = Inr (move c (a, b), \<lparr>m_it = ci # rest, m_cursor = move c (a, b), m_command_id = 1,
              m_count = 0, m_strict = True\<rparr>)"
    using next_point_step [of 1 True 1 a b _ c] by simp
  have c2: "next_command 2 \<lparr>m_it = ci # rest, m_cursor = move c (a, b), m_command_id = 1,
              m_count = 0, m_strict = True\<rparr>
      = Inr (True, \<lparr>m_it = rest, m_cursor = move c (a, b), m_command_id = 2,
              m_count = get_command_count ci, m_strict = True\<rparr>)"
    using next_command_step [of ci 2] assms(1) by simp
  show ?thesis
    using assms(2) by (simp add: decode_polygon_ring_def count_def p1 c2)
qed

lemma decode_polygon_ring_bad:
  assumes "count_fits ((a, b), ps)" and "\<not> ring_ok s ((a, b), ps)"
  shows "geometry_error (decode_polygon_ring
           \<lparr>m_it = a # b # command_line_to (line_count ((a, b), ps))
                     # flat ps @ tail,
            m_cursor = c, m_command_id = 1, m_count = 1, m_strict = s\<rparr> s h)"
proof -
  from assms have s: "s = True"
    by (simp add: ring_ok_def)
  show ?thesis
  proof (cases "length ps \<le> 1")
    case True
    with assms(1) have "get_command_count (command_line_to (line_count ((a, b), ps))) \<le> 1"
      by (simp add: word_le_one unat_line_count)
    from decode_polygon_ring_count [OF _ this] show ?thesis
      unfolding s by simp
  next
    case False
    with assms s have zero: "list_ex zero_pair ps"
      by (simp add: ring_ok_def has_zero_pair_def)
    have p1: "next_point \<lparr>m_it = a # b # command_line_to (line_count ((a, b), ps)) # flat ps @ tail,
              m_cursor = c, m_command_id = 1, m_count = 1, m_strict = True\<rparr>
      = Inr (move c (a, b), \<lparr>m_it = command_line_to (line_count ((a, b), ps)) # flat ps @ tail,
              m_cursor = move c (a, b), m_command_id = 1, m_count = 0, m_strict = True\<rparr>)"
      using next_point_step [of 1 True 1 a b _ c] by simp
    have c2: "next_command 2 \<lparr>m_it = command_line_to (line_count ((a, b), ps)) # flat ps @ tail,
              m_cursor = move c (a, b), m_command_id = 1, m_count = 0, m_strict = True\<rparr>
      = Inr (True, \<lparr>m_it = flat ps @ tail,
              m_cursor = move c (a, b), m_command_id = 2, m_count = line_count ((a, b), ps),
              m_strict = True\<rparr>)"
      using next_command_step [of "command_line_to (line_count ((a, b), ps))" 2] assms(1) by simp
    from assms(1) False have big: "\<not> line_count ((a, b), ps) \<le> 1"
      by (simp add: word_le_one unat_line_count)
    from ring_loop_strict [OF unat_line_count [OF assms(1), unfolded snd_conv] zero, of tail "move c (a, b)" 0
        "move c (a, b)" "h @ [ring_begin (line_count ((a, b), ps) + 2), ring_point (move c (a, b))]"]
    obtain msg h' where "ring_loop \<lparr>m_it = flat ps @ tail,
              m_cursor = move c (a, b), m_command_id = 2, m_count = line_count ((a, b), ps),
              m_strict = True\<rparr> 0 (move c (a, b))
              (h @ [ring_begin (line_count ((a, b), ps) + 2), ring_point (move c (a, b))])
         = Inl (geometry_exception msg, h')"
      by (rule geometry_errorE)
    with big show ?thesis
      unfolding s by (simp add: decode_polygon_ring_def count_def p1 c2)
  qed
qed

lemma decode_polygon_ring_close_count:
  assumes "count_fits ((a, b), ps)" and "get_command_id ci = 7" and "get_command_count ci \<noteq> 1"
  shows "geometry_error (decode_polygon_ring
           \<lparr>m_it = a # b # command_line_to (line_count ((a, b), ps))
                     # flat ps @ ci # tail,
            m_cursor = c, m_command_id = 1, m_count = 1, m_strict = s\<rparr> s h)"
proof (cases "ring_ok s ((a, b), ps)")
  case False
  from decode_polygon_ring_bad [OF assms(1) False, of "ci # tail"] show ?thesis .
next
  case True
  let ?start = "start_of c ((a, b), ps)"
  have start: "move c (a, b) = ?start"
    by (simp add: start_of_def)
  have ps: "snd ((a, b), ps) = ps"
    by simp
  have p1: "next_point \<lparr>m_it = a # b # command_line_to (line_count ((a, b), ps))
                # flat ps @ ci # tail,
              m_cursor = c, m_command_id = 1, m_count = 1, m_strict = s\<rparr>
      = Inr (?start, \<lparr>m_it = command_line_to (line_count ((a, b), ps)) # flat ps @ ci # tail,
              m_cursor = ?start, m_command_id = 1, m_count = 0, m_strict = s\<rparr>)"
    using next_point_step [of 1 s 1 a b _ c] by (simp add: start)
  have c2: "next_command 2 \<lparr>m_it = command_line_to (line_count ((a, b), ps)) # flat ps @ ci # tail,
              m_cursor = ?start, m_command_id = 1, m_count = 0, m_strict = s\<rparr>
      = Inr (True, \<lparr>m_it = flat ps @ ci # tail,
              m_cursor = ?start, m_command_id = 2, m_count = line_count ((a, b), ps), m_strict = s\<rparr>)"
    using next_command_step [of "command_line_to (line_count ((a, b), ps))" 2] assms(1) by simp
  from True have big: "\<not> (s \<and> line_count ((a, b), ps) \<le> 1)"
    by (auto simp: ring_ok_def word_le_one unat_line_count)
  from True have nozero: "\<not> (s \<and> (2::u32) = 2 \<and> list_ex zero_pair ps)"
    by (simp add: ring_ok_def has_zero_pair_def)
  note loop = ring_loop_run [OF unat_line_count [OF assms(1), unfolded snd_conv] nozero,
      of "ci # tail" ?start 0 "h @ [ring_begin (line_count ((a, b), ps) + 2), ring_point ?start]"]
  note c3 = next_command_close_count [OF assms(2,3), of 7 tail "cursor_after ?start ps" 2 s]
  show ?thesis
    using big by (simp add: decode_polygon_ring_def count_def p1 c2 loop c3)
qed

subsection \<open>A sequence of rings\<close>

lemma decode_polygon_loop_end:
  "decode_polygon_loop \<lparr>m_it = [], m_cursor = c, m_command_id = k, m_count = 0,
     m_strict = s\<rparr> strict h = Inr h"
  by (subst decode_polygon_loop.simps) (simp add: next_command_end)

lemma polygon_first_command:
  "next_command 1 \<lparr>m_it = command_move_to 1 # rest, m_cursor = c, m_command_id = k,
     m_count = 0, m_strict = s\<rparr>
   = Inr (True, \<lparr>m_it = rest, m_cursor = c, m_command_id = 1, m_count = 1, m_strict = s\<rparr>)"
  using next_command_step [of "command_move_to 1" 1 rest c k s] by simp

lemma decode_polygon_loop_rings:
  assumes "list_all (ring_ok s) rs"
  shows "decode_polygon_loop \<lparr>m_it = polygon_stream rs @ tail, m_cursor = c,
           m_command_id = k, m_count = 0, m_strict = s\<rparr> s h
         = decode_polygon_loop \<lparr>m_it = tail, m_cursor = foldl end_cursor c rs,
             m_command_id = (if rs = [] then k else 7), m_count = 0, m_strict = s\<rparr> s
             (h @ polygon_events c rs)"
  using assms
proof (induction rs arbitrary: c k h)
  case Nil
  show ?case by simp
next
  case (Cons r rs)
  obtain a b ps where r: "r = ((a, b), ps)"
    by (cases r) auto
  from Cons.prems have ok: "ring_ok s ((a, b), ps)" and rest: "list_all (ring_ok s) rs"
    by (simp_all add: r)
  have "decode_polygon_loop \<lparr>m_it = polygon_stream (r # rs) @ tail, m_cursor = c,
           m_command_id = k, m_count = 0, m_strict = s\<rparr> s h
        = decode_polygon_loop \<lparr>m_it = polygon_stream rs @ tail, m_cursor = end_cursor c r,
           m_command_id = 7, m_count = 0, m_strict = s\<rparr> s (h @ ring_events c r)"
    by (subst decode_polygon_loop.simps)
       (simp add: r ring_stream_def polygon_first_command
          decode_polygon_ring_ok [OF ok, of "polygon_stream rs @ tail" c h])
  with Cons.IH [OF rest, of "end_cursor c r" 7 "h @ ring_events c r"] show ?case
    by simp
qed

lemma decode_polygon_loop_bad:
  assumes "list_all count_fits rs" and "\<not> list_all (ring_ok s) rs"
  shows "geometry_error (decode_polygon_loop \<lparr>m_it = polygon_stream rs @ tail, m_cursor = c,
           m_command_id = k, m_count = 0, m_strict = s\<rparr> s h)"
  using assms
proof (induction rs arbitrary: c k h)
  case Nil
  then show ?case by simp
next
  case (Cons r rs)
  obtain a b ps where r: "r = ((a, b), ps)"
    by (cases r) auto
  from Cons.prems have fits: "count_fits ((a, b), ps)" "list_all count_fits rs"
    by (simp_all add: r)
  show ?case
  proof (cases "ring_ok s ((a, b), ps)")
    case True
    with Cons.prems have bad: "\<not> list_all (ring_ok s) rs"
      by (simp add: r)
    have "decode_polygon_loop \<lparr>m_it = polygon_stream (r # rs) @ tail, m_cursor = c,
           m_command_id = k, m_count = 0, m_strict = s\<rparr> s h
        = decode_polygon_loop \<lparr>m_it = polygon_stream rs @ tail, m_cursor = end_cursor c r,
           m_command_id = 7, m_count = 0, m_strict = s\<rparr> s (h @ ring_events c r)"
      by (subst decode_polygon_loop.simps)
         (simp add: r ring_stream_def polygon_first_command
            decode_polygon_ring_ok [OF True, of "polygon_stream rs @ tail" c h])
    with Cons.IH [OF fits(2) bad, of "end_cursor c r" 7 "h @ ring_events c r"] show ?thesis
      by simp
  next
    case False
    from decode_polygon_ring_bad [OF fits(1) False,
        of "command_close_path 1 # polygon_stream rs @ tail" c h]
    obtain msg h' where "decode_polygon_ring
           \<lparr>m_it = a # b # command_line_to (line_count ((a, b), ps))
                     # flat ps @ command_close_path 1 # polygon_stream rs @ tail,
            m_cursor = c, m_command_id = 1, m_count = 1, m_strict = s\<rparr> s h
         = Inl (geometry_exception msg, h')"
      by (rule geometry_errorE)
    then show ?thesis
      by (subst decode_polygon_loop.simps) (simp add: r ring_stream_def polygon_first_command)
  qed
qed

subsection \<open>One linestring\<close>

lemma decode_linestring_part_ok:
  assumes "linestring_ok s ((a, b), ps)"
  shows "decode_linestring_part
           \<lparr>m_it = a # b # command_line_to (line_count ((a, b), ps)) # flat ps @ tail,
            m_cursor = c, m_command_id = 1, m_count = 1, m_strict = s\<rparr> h
         = Inr (\<lparr>m_it = tail, m_cursor = end_cursor c ((a, b), ps), m_command_id = 2,
                 m_count = 0, m_strict = s\<rparr>, h @ linestring_events c ((a, b), ps))"
proof -
  let ?start = "start_of c ((a, b), ps)"
  from assms have fits: "count_fits ((a, b), ps)"
    by (simp add: linestring_ok_def)
  have start: "move c (a, b) = ?start"
    by (simp add: start_of_def)
  have p1: "next_point \<lparr>m_it = a # b # command_line_to (line_count ((a, b), ps))
                # flat ps @ tail,
              m_cursor = c, m_command_id = 1, m_count = 1, m_strict = s\<rparr>
      = Inr (?start, \<lparr>m_it = command_line_to (line_count ((a, b), ps)) # flat ps @ tail,
              m_cursor = ?start, m_command_id = 1, m_count = 0, m_strict = s\<rparr>)"
    using next_point_step [of 1 s 1 a b _ c] by (simp add: start)
  have c2: "next_command 2 \<lparr>m_it = command_line_to (line_count ((a, b), ps)) # flat ps @ tail,
              m_cursor = ?start, m_command_id = 1, m_count = 0, m_strict = s\<rparr>
      = Inr (True, \<lparr>m_it = flat ps @ tail,
              m_cursor = ?start, m_command_id = 2, m_count = line_count ((a, b), ps),
              m_strict = s\<rparr>)"
    using next_command_step [of "command_line_to (line_count ((a, b), ps))" 2] fits by simp
  from assms have some: "line_count ((a, b), ps) \<noteq> 0"
    using unat_line_count [OF fits] by (auto simp: linestring_ok_def)
  from assms have nozero: "\<not> (s \<and> (2::u32) = 2 \<and> list_ex zero_pair ps)"
    by (simp add: linestring_ok_def has_zero_pair_def)
  note loop = linestring_loop_run [OF unat_line_count [OF fits, unfolded snd_conv] nozero,
      of tail ?start
         "h @ [linestring_begin (line_count ((a, b), ps) + 1), linestring_point ?start]"]
  show ?thesis
    using some
    by (simp add: decode_linestring_part_def count_def p1 c2 loop linestring_events_def
          end_cursor_def)
qed

lemma decode_linestring_part_bad:
  assumes "linestring_ok False ((a, b), ps)" and "\<not> linestring_ok s ((a, b), ps)"
  shows "geometry_error (decode_linestring_part
           \<lparr>m_it = a # b # command_line_to (line_count ((a, b), ps)) # flat ps @ tail,
            m_cursor = c, m_command_id = 1, m_count = 1, m_strict = s\<rparr> h)"
proof -
  from assms have s: "s = True"
    by (simp add: linestring_ok_def)
  from assms have fits: "count_fits ((a, b), ps)"
    and zero: "list_ex zero_pair ps"
    by (auto simp: linestring_ok_def has_zero_pair_def)
  have p1: "next_point \<lparr>m_it = a # b # command_line_to (line_count ((a, b), ps))
                # flat ps @ tail,
              m_cursor = c, m_command_id = 1, m_count = 1, m_strict = True\<rparr>
      = Inr (move c (a, b),
             \<lparr>m_it = command_line_to (line_count ((a, b), ps)) # flat ps @ tail,
              m_cursor = move c (a, b), m_command_id = 1, m_count = 0, m_strict = True\<rparr>)"
    using next_point_step [of 1 True 1 a b _ c] by simp
  have c2: "next_command 2 \<lparr>m_it = command_line_to (line_count ((a, b), ps)) # flat ps @ tail,
              m_cursor = move c (a, b), m_command_id = 1, m_count = 0, m_strict = True\<rparr>
      = Inr (True, \<lparr>m_it = flat ps @ tail,
              m_cursor = move c (a, b), m_command_id = 2, m_count = line_count ((a, b), ps),
              m_strict = True\<rparr>)"
    using next_command_step [of "command_line_to (line_count ((a, b), ps))" 2] fits by simp
  from assms(1) have some: "line_count ((a, b), ps) \<noteq> 0"
    using unat_line_count [OF fits] by (auto simp: linestring_ok_def)
  from linestring_loop_strict [OF unat_line_count [OF fits, unfolded snd_conv] zero,
      of tail "move c (a, b)"
         "h @ [linestring_begin (line_count ((a, b), ps) + 1), linestring_point (move c (a, b))]"]
  obtain msg h' where "linestring_loop \<lparr>m_it = flat ps @ tail,
              m_cursor = move c (a, b), m_command_id = 2, m_count = line_count ((a, b), ps),
              m_strict = True\<rparr>
              (h @ [linestring_begin (line_count ((a, b), ps) + 1),
                    linestring_point (move c (a, b))])
         = Inl (geometry_exception msg, h')"
    by (rule geometry_errorE)
  with some show ?thesis
    unfolding s by (simp add: decode_linestring_part_def count_def p1 c2)
qed

subsection \<open>A sequence of linestrings\<close>

lemma decode_linestring_loop_end:
  "decode_linestring_loop \<lparr>m_it = [], m_cursor = c, m_command_id = k, m_count = 0,
     m_strict = s\<rparr> h = Inr h"
  by (subst decode_linestring_loop.simps) (simp add: next_command_end)

lemma decode_linestring_loop_lines:
  assumes "list_all (linestring_ok s) ls"
  shows "decode_linestring_loop \<lparr>m_it = linestrings_stream ls @ tail, m_cursor = c,
           m_command_id = k, m_count = 0, m_strict = s\<rparr> h
         = decode_linestring_loop \<lparr>m_it = tail, m_cursor = foldl end_cursor c ls,
             m_command_id = (if ls = [] then k else 2), m_count = 0, m_strict = s\<rparr>
             (h @ linestrings_events c ls)"
  using assms
proof (induction ls arbitrary: c k h)
  case Nil
  show ?case by simp
next
  case (Cons r ls)
  obtain a b ps where r: "r = ((a, b), ps)"
    by (cases r) auto
  from Cons.prems have ok: "linestring_ok s ((a, b), ps)"
    and rest: "list_all (linestring_ok s) ls"
    by (simp_all add: r)
  have "decode_linestring_loop \<lparr>m_it = linestrings_stream (r # ls) @ tail, m_cursor = c,
           m_command_id = k, m_count = 0, m_strict = s\<rparr> h
        = decode_linestring_loop \<lparr>m_it = linestrings_stream ls @ tail,
           m_cursor = end_cursor c r, m_command_id = 2, m_count = 0, m_strict = s\<rparr>
           (h @ linestring_events c r)"
    by (subst decode_linestring_loop.simps)
       (simp add: r linestring_stream_def polygon_first_command
          decode_linestring_part_ok [OF ok, of "linestrings_stream ls @ tail" c h])
  with Cons.IH [OF rest, of "end_cursor c r" 2 "h @ linestring_events c r"] show ?case
    by simp
qed

lemma decode_linestring_loop_bad:
  assumes "list_all (linestring_ok False) ls" and "\<not> list_all (linestring_ok s) ls"
  shows "geometry_error (decode_linestring_loop \<lparr>m_it = linestrings_stream ls @ tail,
           m_cursor = c, m_command_id = k, m_count = 0, m_strict = s\<rparr> h)"
  using assms
proof (induction ls arbitrary: c k h)
  case Nil
  then show ?case by simp
next
  case (Cons r ls)
  obtain a b ps where r: "r = ((a, b), ps)"
    by (cases r) auto
  from Cons.prems have fits: "linestring_ok False ((a, b), ps)"
    "list_all (linestring_ok False) ls"
    by (simp_all add: r)
  show ?case
  proof (cases "linestring_ok s ((a, b), ps)")
    case True
    with Cons.prems have bad: "\<not> list_all (linestring_ok s) ls"
      by (simp add: r)
    have "decode_linestring_loop \<lparr>m_it = linestrings_stream (r # ls) @ tail, m_cursor = c,
           m_command_id = k, m_count = 0, m_strict = s\<rparr> h
        = decode_linestring_loop \<lparr>m_it = linestrings_stream ls @ tail,
           m_cursor = end_cursor c r, m_command_id = 2, m_count = 0, m_strict = s\<rparr>
           (h @ linestring_events c r)"
      by (subst decode_linestring_loop.simps)
         (simp add: r linestring_stream_def polygon_first_command
            decode_linestring_part_ok [OF True, of "linestrings_stream ls @ tail" c h])
    with Cons.IH [OF fits(2) bad, of "end_cursor c r" 2 "h @ linestring_events c r"]
    show ?thesis
      by simp
  next
    case False
    from decode_linestring_part_bad [OF fits(1) False, of "linestrings_stream ls @ tail" c h]
    obtain msg h' where "decode_linestring_part
           \<lparr>m_it = a # b # command_line_to (line_count ((a, b), ps))
                     # flat ps @ linestrings_stream ls @ tail,
            m_cursor = c, m_command_id = 1, m_count = 1, m_strict = s\<rparr> h
         = Inl (geometry_exception msg, h')"
      by (rule geometry_errorE)
    then show ?thesis
      by (subst decode_linestring_loop.simps)
         (simp add: r linestring_stream_def polygon_first_command)
  qed
qed

subsection \<open>A ClosePath command with a wrong count where a MoveTo is expected\<close>

lemma decode_polygon_loop_close_count:
  assumes "get_command_id ci = 7" and "get_command_count ci \<noteq> 1"
  shows "decode_polygon_loop \<lparr>m_it = ci # rest, m_cursor = c, m_command_id = k,
           m_count = 0, m_strict = s\<rparr> strict h
         = Inl (geometry_exception ''ClosePath command count is not 1'', h)"
  by (subst decode_polygon_loop.simps) (simp add: next_command_close_count [OF assms])

lemma decode_linestring_loop_close_count:
  assumes "get_command_id ci = 7" and "get_command_count ci \<noteq> 1"
  shows "decode_linestring_loop \<lparr>m_it = ci # rest, m_cursor = c, m_command_id = k,
           m_count = 0, m_strict = s\<rparr> h
         = Inl (geometry_exception ''ClosePath command count is not 1'', h)"
  by (subst decode_linestring_loop.simps) (simp add: next_command_close_count [OF assms])

subsection \<open>Polygon geometries\<close>

lemma is_outer_sint: "is_outer c r = (0 < sint (shoelace (ring_points c r)))"
  by (simp add: is_outer_def word_sless_alt)

lemma decode_polygon_geometry_rings:
  assumes "list_all (ring_ok strict) rs"
  shows "decode_polygon_geometry \<lparr>geom_data = polygon_stream rs, geom_type = POLYGON\<rparr> strict h
         = Inr (h @ polygon_events point_zero rs)"
  using decode_polygon_loop_rings [OF assms, of "[]" point_zero 0 h]
  by (simp add: decode_polygon_geometry_def geometry_decoder_def decode_polygon_loop_end)

lemma ring_ok_nonstrict: "ring_ok False = count_fits"
  by (rule ext) (simp add: ring_ok_def)

text \<open>
  C1: for every polygon stream made of rings that \<open>decode_polygon_geometry\<close> accepts
  (\<open>ring_ok\<close>), and every ring in it, the decoder emits \<open>ring_begin\<close>, the start
  point, the LineTo points and the start point again as the last \<open>ring_point\<close>, and
  calls \<open>ring_end\<close> with \<open>sum > 0\<close>, where \<open>sum\<close> is the 64-bit signed shoelace sum
  of \<open>det(p_prev, p_next)\<close> over all consecutive segments of these points, the closing
  segment back to the start point included: a positive sum makes the ring outer, a
  non-positive sum not outer.
\<close>

theorem decode_polygon_geometry_shoelace:
  assumes "list_all (ring_ok strict) rs"
  shows "decode_polygon_geometry \<lparr>geom_data = polygon_stream rs, geom_type = POLYGON\<rparr> strict h
         = Inr (h @ polygon_events point_zero rs)
       \<and> (\<forall>c r. ring_events c r
             = ring_begin (line_count r + 2) # map ring_point (ring_points c r)
               @ [ring_end (0 < sint (shoelace (ring_points c r)))])
       \<and> (\<forall>c r. hd (ring_points c r) = start_of c r \<and> last (ring_points c r) = start_of c r)"
  using decode_polygon_geometry_rings [OF assms, of h]
  by (simp add: ring_events_def is_outer_sint ring_points_def)

theorem decode_polygon_geometry_shoelace_witness:
  "list_all (ring_ok True)
     [((0, 0), [(20, 0), (0, 20), (19, 0)]), ((4, 15), [(0, 12), (12, 0), (0, 11)])]
   \<and> decode_polygon_geometry
       \<lparr>geom_data = [9, 0, 0, 26, 20, 0, 0, 20, 19, 0, 15, 9, 4, 15, 26, 0, 12, 12, 0, 0, 11, 15],
        geom_type = POLYGON\<rparr> True []
     = Inr [ring_begin 5, ring_point \<lparr>point_x = 0, point_y = 0\<rparr>,
            ring_point \<lparr>point_x = 10, point_y = 0\<rparr>,
            ring_point \<lparr>point_x = 10, point_y = 10\<rparr>,
            ring_point \<lparr>point_x = 0, point_y = 10\<rparr>,
            ring_point \<lparr>point_x = 0, point_y = 0\<rparr>, ring_end True,
            ring_begin 5, ring_point \<lparr>point_x = 2, point_y = 2\<rparr>,
            ring_point \<lparr>point_x = 2, point_y = 8\<rparr>,
            ring_point \<lparr>point_x = 8, point_y = 8\<rparr>,
            ring_point \<lparr>point_x = 8, point_y = 2\<rparr>,
            ring_point \<lparr>point_x = 2, point_y = 2\<rparr>, ring_end False]"
proof -
  let ?rs = "[((0, 0), [(20, 0), (0, 20), (19, 0)]), ((4, 15), [(0, 12), (12, 0), (0, 11)])]
    :: line_spec list"
  have ok: "list_all (ring_ok True) ?rs"
    by (simp add: ring_ok_def count_fits_def has_zero_pair_def zero_pair_def
          decode_zigzag32_def)
  have stream: "polygon_stream ?rs
      = [9, 0, 0, 26, 20, 0, 0, 20, 19, 0, 15, 9, 4, 15, 26, 0, 12, 12, 0, 0, 11, 15]"
    by (simp add: ring_stream_def command_move_to_def command_line_to_def
          command_close_path_def command_integer_def line_count_def)
  have events: "polygon_events point_zero ?rs
     = [ring_begin 5, ring_point \<lparr>point_x = 0, point_y = 0\<rparr>,
            ring_point \<lparr>point_x = 10, point_y = 0\<rparr>,
            ring_point \<lparr>point_x = 10, point_y = 10\<rparr>,
            ring_point \<lparr>point_x = 0, point_y = 10\<rparr>,
            ring_point \<lparr>point_x = 0, point_y = 0\<rparr>, ring_end True,
            ring_begin 5, ring_point \<lparr>point_x = 2, point_y = 2\<rparr>,
            ring_point \<lparr>point_x = 2, point_y = 8\<rparr>,
            ring_point \<lparr>point_x = 8, point_y = 8\<rparr>,
            ring_point \<lparr>point_x = 8, point_y = 2\<rparr>,
            ring_point \<lparr>point_x = 2, point_y = 2\<rparr>, ring_end False]"
    by (simp add: ring_events_def ring_points_def start_of_def move_def decode_zigzag32_def
          is_outer_def det_def end_cursor_def line_count_def point_zero_def word_sless_alt)
  from decode_polygon_geometry_shoelace [OF ok, of "[]"] ok show ?thesis
    unfolding stream events by simp
qed

text \<open>
  C2 as stated does not hold: the count check of the LineTo command is made in strict
  mode only (\<open>if (strict && decoder.count() <= 1)\<close>). In non-strict mode the ring
  MoveTo(1) (1, 2), LineTo(0), ClosePath(1) is decoded without an error.
\<close>

theorem decode_polygon_lineto_zero_counterexample:
  "get_command_id 2 = 2 \<and> get_command_count 2 = 0
   \<and> \<not> geometry_error
        (decode_polygon_geometry \<lparr>geom_data = [9, 2, 4, 2, 15], geom_type = POLYGON\<rparr> False [])
   \<and> decode_polygon_geometry \<lparr>geom_data = [9, 2, 4, 2, 15], geom_type = POLYGON\<rparr> False []
     = Inr [ring_begin 2, ring_point \<lparr>point_x = 1, point_y = 2\<rparr>,
            ring_point \<lparr>point_x = 1, point_y = 2\<rparr>, ring_end False]"
proof -
  have stream: "polygon_stream [((2, 4), [])] = [9, 2, 4, 2, 15]"
    by (simp add: ring_stream_def command_move_to_def command_line_to_def
          command_close_path_def command_integer_def line_count_def)
  have events: "polygon_events point_zero [((2, 4), [])]
      = [ring_begin 2, ring_point \<lparr>point_x = 1, point_y = 2\<rparr>,
         ring_point \<lparr>point_x = 1, point_y = 2\<rparr>, ring_end False]"
    by (simp add: ring_events_def ring_points_def start_of_def move_def decode_zigzag32_def
          is_outer_def det_def end_cursor_def line_count_def point_zero_def word_sless_alt)
  have "list_all (ring_ok False) [((2, 4), [])]"
    by (simp add: ring_ok_def count_fits_def)
  from decode_polygon_geometry_rings [OF this, of "[]"] show ?thesis
    unfolding stream events
    by (simp add: get_command_id_def get_command_count_def)
qed


text \<open>
  C2, amended: in strict mode a ring whose LineTo command has a count of 0 or 1 raises a
  \<open>geometry_exception\<close>, wherever the ring stands in the stream; in non-strict mode
  \<open>decode_polygon_geometry\<close> puts no lower bound on the LineTo count: every stream of
  rings, rings with a LineTo count of 0 or 1 included, is decoded.
\<close>

theorem decode_polygon_lineto_count:
  "(list_all count_fits rs \<and> get_command_id ci = 2 \<and> get_command_count ci \<le> 1
      \<longrightarrow> geometry_error (decode_polygon_geometry
            \<lparr>geom_data = polygon_stream rs @ command_move_to 1 # a # b # ci # rest,
             geom_type = POLYGON\<rparr> True h))
   \<and> (list_all count_fits rs
      \<longrightarrow> decode_polygon_geometry \<lparr>geom_data = polygon_stream rs, geom_type = POLYGON\<rparr>
            False h
          = Inr (h @ polygon_events point_zero rs))"
proof (intro conjI impI)
  assume *: "list_all count_fits rs \<and> get_command_id ci = 2 \<and> get_command_count ci \<le> 1"
  let ?tail = "command_move_to 1 # a # b # ci # rest"
  show "geometry_error (decode_polygon_geometry
            \<lparr>geom_data = polygon_stream rs @ ?tail, geom_type = POLYGON\<rparr> True h)"
  proof (cases "list_all (ring_ok True) rs")
    case False
    with * decode_polygon_loop_bad [of rs True ?tail point_zero 0 h] show ?thesis
      by (simp add: decode_polygon_geometry_def geometry_decoder_def)
  next
    case True
    have "decode_polygon_loop \<lparr>m_it = ?tail, m_cursor = c, m_command_id = k, m_count = 0,
            m_strict = True\<rparr> True h'
          = Inl (geometry_exception
                   ''LineTo command count is not greater than 1 (spec 4.3.4.4)'', h')"
      for c k h'
      using * by (subst decode_polygon_loop.simps)
        (simp add: polygon_first_command decode_polygon_ring_count)
    with decode_polygon_loop_rings [OF True, of ?tail point_zero 0 h] show ?thesis
      by (simp add: decode_polygon_geometry_def geometry_decoder_def)
  qed
next
  assume "list_all count_fits rs"
  then have "list_all (ring_ok False) rs"
    by (simp add: ring_ok_nonstrict)
  then show "decode_polygon_geometry \<lparr>geom_data = polygon_stream rs, geom_type = POLYGON\<rparr>
            False h
          = Inr (h @ polygon_events point_zero rs)"
    by (rule decode_polygon_geometry_rings)
qed

theorem decode_polygon_lineto_count_witness:
  "geometry_error (decode_polygon_geometry
      \<lparr>geom_data = [9, 2, 4, 2, 15], geom_type = POLYGON\<rparr> True [])
   \<and> geometry_error (decode_polygon_geometry
      \<lparr>geom_data = [9, 2, 4, 10, 4, 4, 15], geom_type = POLYGON\<rparr> True [])
   \<and> decode_polygon_geometry \<lparr>geom_data = [9, 2, 4, 10, 4, 4, 15], geom_type = POLYGON\<rparr>
       False []
     = Inr [ring_begin 3, ring_point \<lparr>point_x = 1, point_y = 2\<rparr>,
            ring_point \<lparr>point_x = 3, point_y = 4\<rparr>,
            ring_point \<lparr>point_x = 1, point_y = 2\<rparr>, ring_end False]"
proof -
  have stream: "polygon_stream [((2, 4), [(4, 4)])] = [9, 2, 4, 10, 4, 4, 15]"
    by (simp add: ring_stream_def command_move_to_def command_line_to_def
          command_close_path_def command_integer_def line_count_def)
  have events: "polygon_events point_zero [((2, 4), [(4, 4)])]
      = [ring_begin 3, ring_point \<lparr>point_x = 1, point_y = 2\<rparr>,
         ring_point \<lparr>point_x = 3, point_y = 4\<rparr>,
         ring_point \<lparr>point_x = 1, point_y = 2\<rparr>, ring_end False]"
    by (simp add: ring_events_def ring_points_def start_of_def move_def decode_zigzag32_def
          is_outer_def det_def end_cursor_def line_count_def point_zero_def word_sless_alt)
  have fits: "list_all count_fits [((2, 4), [(4, 4)])]"
    by (simp add: count_fits_def)
  have nine: "command_move_to 1 = 9"
    by (simp add: command_move_to_def command_integer_def)
  from decode_polygon_lineto_count [of "[]" 2 2 4 "[15]" "[]"]
    decode_polygon_lineto_count [of "[]" 10 2 4 "[4, 4, 15]" "[]"]
    decode_polygon_lineto_count [of "[((2, 4), [(4, 4)])]" 2 0 0 "[]" "[]"] fits
  show ?thesis
    unfolding stream events
    by (simp add: get_command_id_def get_command_count_def nine)
qed

subsection \<open>Strict mode and ClosePath\<close>

lemma decode_linestring_geometry_lines:
  assumes "list_all (linestring_ok strict) ls"
  shows "decode_linestring_geometry
           \<lparr>geom_data = linestrings_stream ls, geom_type = LINESTRING\<rparr> strict h
         = Inr (h @ linestrings_events point_zero ls)"
  using decode_linestring_loop_lines [OF assms, of "[]" point_zero 0 h]
  by (simp add: decode_linestring_geometry_def geometry_decoder_def decode_linestring_loop_end)

lemma zero_pair_not_strict_linestring:
  "list_ex has_zero_pair ls \<Longrightarrow> \<not> list_all (linestring_ok True) ls"
  by (auto simp: list_all_iff list_ex_iff linestring_ok_def)

lemma zero_pair_not_strict_ring:
  "list_ex has_zero_pair rs \<Longrightarrow> \<not> list_all (ring_ok True) rs"
  by (auto simp: list_all_iff list_ex_iff ring_ok_def)

text \<open>
  C3: a linestring or polygon stream that satisfies the rules of non-strict mode and
  has a LineTo parameter pair whose two zigzag-decoded deltas are zero raises a
  \<open>geometry_exception\<close> in strict mode and is decoded in non-strict mode.
\<close>

theorem strict_mode_equal_points:
  "(list_all (linestring_ok False) ls \<and> list_ex has_zero_pair ls
      \<longrightarrow> geometry_error (decode_linestring_geometry
            \<lparr>geom_data = linestrings_stream ls, geom_type = LINESTRING\<rparr> True h)
          \<and> decode_linestring_geometry
              \<lparr>geom_data = linestrings_stream ls, geom_type = LINESTRING\<rparr> False h
            = Inr (h @ linestrings_events point_zero ls))
   \<and> (list_all (ring_ok False) rs \<and> list_ex has_zero_pair rs
      \<longrightarrow> geometry_error (decode_polygon_geometry
            \<lparr>geom_data = polygon_stream rs, geom_type = POLYGON\<rparr> True h)
          \<and> decode_polygon_geometry \<lparr>geom_data = polygon_stream rs, geom_type = POLYGON\<rparr>
              False h
            = Inr (h @ polygon_events point_zero rs))"
proof (intro conjI impI)
  assume *: "list_all (linestring_ok False) ls \<and> list_ex has_zero_pair ls"
  then have "\<not> list_all (linestring_ok True) ls"
    by (simp add: zero_pair_not_strict_linestring)
  with * decode_linestring_loop_bad [of ls True "[]" point_zero 0 h]
  show "geometry_error (decode_linestring_geometry
            \<lparr>geom_data = linestrings_stream ls, geom_type = LINESTRING\<rparr> True h)"
    by (simp add: decode_linestring_geometry_def geometry_decoder_def)
  from * show "decode_linestring_geometry
              \<lparr>geom_data = linestrings_stream ls, geom_type = LINESTRING\<rparr> False h
            = Inr (h @ linestrings_events point_zero ls)"
    by (simp add: decode_linestring_geometry_lines)
next
  assume *: "list_all (ring_ok False) rs \<and> list_ex has_zero_pair rs"
  then have "\<not> list_all (ring_ok True) rs" "list_all count_fits rs"
    by (simp_all add: zero_pair_not_strict_ring ring_ok_nonstrict)
  with decode_polygon_loop_bad [of rs True "[]" point_zero 0 h]
  show "geometry_error (decode_polygon_geometry
            \<lparr>geom_data = polygon_stream rs, geom_type = POLYGON\<rparr> True h)"
    by (simp add: decode_polygon_geometry_def geometry_decoder_def)
  from * show "decode_polygon_geometry \<lparr>geom_data = polygon_stream rs, geom_type = POLYGON\<rparr>
              False h
            = Inr (h @ polygon_events point_zero rs)"
    by (simp add: decode_polygon_geometry_rings)
qed

theorem strict_mode_equal_points_witness:
  "geometry_error (decode_linestring_geometry
      \<lparr>geom_data = [9, 6, 12, 18, 10, 12, 0, 0], geom_type = LINESTRING\<rparr> True [])
   \<and> decode_linestring_geometry
       \<lparr>geom_data = [9, 6, 12, 18, 10, 12, 0, 0], geom_type = LINESTRING\<rparr> False []
     = Inr [linestring_begin 3, linestring_point \<lparr>point_x = 3, point_y = 6\<rparr>,
            linestring_point \<lparr>point_x = 8, point_y = 12\<rparr>,
            linestring_point \<lparr>point_x = 8, point_y = 12\<rparr>, linestring_end]
   \<and> geometry_error (decode_polygon_geometry
      \<lparr>geom_data = [9, 2, 4, 26, 2, 2, 0, 0, 4, 5, 15], geom_type = POLYGON\<rparr> True [])
   \<and> decode_polygon_geometry
       \<lparr>geom_data = [9, 2, 4, 26, 2, 2, 0, 0, 4, 5, 15], geom_type = POLYGON\<rparr> False []
     = Inr [ring_begin 5, ring_point \<lparr>point_x = 1, point_y = 2\<rparr>,
            ring_point \<lparr>point_x = 2, point_y = 3\<rparr>,
            ring_point \<lparr>point_x = 2, point_y = 3\<rparr>,
            ring_point \<lparr>point_x = 4, point_y = 0\<rparr>,
            ring_point \<lparr>point_x = 1, point_y = 2\<rparr>, ring_end False]"
proof -
  let ?ls = "[((6, 12), [(10, 12), (0, 0)])] :: line_spec list"
  let ?rs = "[((2, 4), [(2, 2), (0, 0), (4, 5)])] :: line_spec list"
  have ls: "list_all (linestring_ok False) ?ls \<and> list_ex has_zero_pair ?ls"
    by (simp add: linestring_ok_def count_fits_def has_zero_pair_def zero_pair_def
          decode_zigzag32_def)
  have rs: "list_all (ring_ok False) ?rs \<and> list_ex has_zero_pair ?rs"
    by (simp add: ring_ok_def count_fits_def has_zero_pair_def zero_pair_def
          decode_zigzag32_def)
  have lstream: "linestrings_stream ?ls = [9, 6, 12, 18, 10, 12, 0, 0]"
    by (simp add: linestring_stream_def command_move_to_def command_line_to_def
          command_integer_def line_count_def)
  have rstream: "polygon_stream ?rs = [9, 2, 4, 26, 2, 2, 0, 0, 4, 5, 15]"
    by (simp add: ring_stream_def command_move_to_def command_line_to_def
          command_close_path_def command_integer_def line_count_def)
  have levents: "linestrings_events point_zero ?ls
      = [linestring_begin 3, linestring_point \<lparr>point_x = 3, point_y = 6\<rparr>,
         linestring_point \<lparr>point_x = 8, point_y = 12\<rparr>,
         linestring_point \<lparr>point_x = 8, point_y = 12\<rparr>, linestring_end]"
    by (simp add: linestring_events_def start_of_def move_def decode_zigzag32_def
          end_cursor_def line_count_def point_zero_def)
  have revents: "polygon_events point_zero ?rs
      = [ring_begin 5, ring_point \<lparr>point_x = 1, point_y = 2\<rparr>,
         ring_point \<lparr>point_x = 2, point_y = 3\<rparr>,
         ring_point \<lparr>point_x = 2, point_y = 3\<rparr>,
         ring_point \<lparr>point_x = 4, point_y = 0\<rparr>,
         ring_point \<lparr>point_x = 1, point_y = 2\<rparr>, ring_end False]"
    by (simp add: ring_events_def ring_points_def start_of_def move_def decode_zigzag32_def
          is_outer_def det_def end_cursor_def line_count_def point_zero_def word_sless_alt)
  from strict_mode_equal_points [of ?ls "[]" ?rs] ls rs show ?thesis
    unfolding lstream rstream levents revents by simp
qed

text \<open>
  C4: in strict and in non-strict mode alike, a ClosePath command integer whose count is
  not 1 raises a \<open>geometry_exception\<close>: \<open>next_command\<close> raises it whatever command is
  expected, and so does every decoder whose stream has such a command integer where a
  command is read: at the start of a point geometry, after any number of linestrings or
  rings, and at the end of a ring.
\<close>

theorem close_path_count:
  "get_command_id ci = 7 \<and> get_command_count ci \<noteq> 1 \<longrightarrow>
     next_command e \<lparr>m_it = ci # rest, m_cursor = c, m_command_id = k, m_count = 0,
                      m_strict = strict\<rparr>
       = Inl (geometry_exception ''ClosePath command count is not 1'')
     \<and> geometry_error (decode_point_geometry
          \<lparr>geom_data = ci # rest, geom_type = POINT\<rparr> strict h)
     \<and> (list_all (linestring_ok False) ls \<longrightarrow>
          geometry_error (decode_linestring_geometry
            \<lparr>geom_data = linestrings_stream ls @ ci # rest, geom_type = LINESTRING\<rparr> strict h))
     \<and> (list_all count_fits rs \<longrightarrow>
          geometry_error (decode_polygon_geometry
            \<lparr>geom_data = polygon_stream rs @ ci # rest, geom_type = POLYGON\<rparr> strict h))
     \<and> (list_all count_fits rs \<and> count_fits ((a, b), ps) \<longrightarrow>
          geometry_error (decode_polygon_geometry
            \<lparr>geom_data = polygon_stream rs
                 @ command_move_to 1 # a # b # command_line_to (line_count ((a, b), ps))
                 # flat ps @ ci # rest,
             geom_type = POLYGON\<rparr> strict h))"
proof (intro impI conjI)
  assume ci: "get_command_id ci = 7 \<and> get_command_count ci \<noteq> 1"
  then have id: "get_command_id ci = 7" and cnt: "get_command_count ci \<noteq> 1"
    by simp_all
  note nc = next_command_close_count [OF id cnt]
  show "next_command e \<lparr>m_it = ci # rest, m_cursor = c, m_command_id = k, m_count = 0,
                      m_strict = strict\<rparr>
       = Inl (geometry_exception ''ClosePath command count is not 1'')"
    by (rule nc)
  show "geometry_error (decode_point_geometry
          \<lparr>geom_data = ci # rest, geom_type = POINT\<rparr> strict h)"
    by (simp add: decode_point_geometry_def geometry_decoder_def nc)
  {
    assume ls: "list_all (linestring_ok False) ls"
    show "geometry_error (decode_linestring_geometry
            \<lparr>geom_data = linestrings_stream ls @ ci # rest, geom_type = LINESTRING\<rparr> strict h)"
    proof (cases "list_all (linestring_ok strict) ls")
      case True
      with decode_linestring_loop_lines [OF True, of "ci # rest" point_zero 0 h] show ?thesis
        by (simp add: decode_linestring_geometry_def geometry_decoder_def
              decode_linestring_loop_close_count [OF id cnt])
    next
      case False
      with decode_linestring_loop_bad [OF ls False, of "ci # rest" point_zero 0 h] show ?thesis
        by (simp add: decode_linestring_geometry_def geometry_decoder_def)
    qed
  }
  {
    assume rs: "list_all count_fits rs"
    show "geometry_error (decode_polygon_geometry
            \<lparr>geom_data = polygon_stream rs @ ci # rest, geom_type = POLYGON\<rparr> strict h)"
    proof (cases "list_all (ring_ok strict) rs")
      case True
      with decode_polygon_loop_rings [OF True, of "ci # rest" point_zero 0 h] show ?thesis
        by (simp add: decode_polygon_geometry_def geometry_decoder_def
              decode_polygon_loop_close_count [OF id cnt])
    next
      case False
      with decode_polygon_loop_bad [OF rs False, of "ci # rest" point_zero 0 h] show ?thesis
        by (simp add: decode_polygon_geometry_def geometry_decoder_def)
    qed
  }
  {
    assume *: "list_all count_fits rs \<and> count_fits ((a, b), ps)"
    let ?tail = "command_move_to 1 # a # b # command_line_to (line_count ((a, b), ps))
                 # flat ps @ ci # rest"
    show "geometry_error (decode_polygon_geometry
            \<lparr>geom_data = polygon_stream rs @ ?tail, geom_type = POLYGON\<rparr> strict h)"
    proof (cases "list_all (ring_ok strict) rs")
      case True
      have "geometry_error (decode_polygon_loop \<lparr>m_it = ?tail, m_cursor = c', m_command_id = k',
              m_count = 0, m_strict = strict\<rparr> strict h')" for c' k' h'
      proof -
        from * have "count_fits ((a, b), ps)"
          by simp
        from decode_polygon_ring_close_count [OF this id cnt, of rest c' strict h']
        obtain msg h2 where "decode_polygon_ring
           \<lparr>m_it = a # b # command_line_to (line_count ((a, b), ps)) # flat ps @ ci # rest,
            m_cursor = c', m_command_id = 1, m_count = 1, m_strict = strict\<rparr> strict h'
          = Inl (geometry_exception msg, h2)"
          by (rule geometry_errorE)
        then show ?thesis
          by (subst decode_polygon_loop.simps) (simp add: polygon_first_command)
      qed
      with decode_polygon_loop_rings [OF True, of ?tail point_zero 0 h] show ?thesis
        by (simp add: decode_polygon_geometry_def geometry_decoder_def)
    next
      case False
      with * decode_polygon_loop_bad [of rs strict ?tail point_zero 0 h] show ?thesis
        by (simp add: decode_polygon_geometry_def geometry_decoder_def)
    qed
  }
qed

theorem close_path_count_witness:
  "get_command_id 23 = 7 \<and> get_command_count 23 = 2
   \<and> next_command 7 \<lparr>m_it = [23], m_cursor = point_zero, m_command_id = 2, m_count = 0,
                      m_strict = False\<rparr>
       = Inl (geometry_exception ''ClosePath command count is not 1'')
   \<and> geometry_error (decode_point_geometry \<lparr>geom_data = [23], geom_type = POINT\<rparr> False [])
   \<and> geometry_error (decode_linestring_geometry
        \<lparr>geom_data = [23], geom_type = LINESTRING\<rparr> False [])
   \<and> geometry_error (decode_polygon_geometry \<lparr>geom_data = [23], geom_type = POLYGON\<rparr> False [])
   \<and> geometry_error (decode_polygon_geometry
        \<lparr>geom_data = [9, 2, 4, 26, 2, 2, 4, 4, 4, 5, 23], geom_type = POLYGON\<rparr> False [])"
proof -
  have ci: "get_command_id 23 = 7 \<and> get_command_count 23 \<noteq> 1" "get_command_count 23 = 2"
    by (simp_all add: get_command_id_def get_command_count_def)
  have stream: "command_move_to 1 # 2 # 4
      # command_line_to (line_count ((2, 4), [(2, 2), (4, 4), (4, 5)]))
      # flat [(2, 2), (4, 4), (4, 5)] @ [23]
      = [9, 2, 4, 26, 2, 2, 4, 4, 4, 5, 23]"
    by (simp add: command_move_to_def command_line_to_def command_integer_def line_count_def)
  have fits: "count_fits ((2, 4), [(2, 2), (4, 4), (4, 5)])"
    by (simp add: count_fits_def)
  from close_path_count [of 23 7 "[]" point_zero 2 False "[]" "[]" "[]" 2 4
      "[(2, 2), (4, 4), (4, 5)]"] ci fits
  show ?thesis
    unfolding stream by simp
qed

section \<open>Properties of the layer\<close>

lemmas layer_tags = pbf_layer_name_def pbf_layer_features_def pbf_layer_keys_def
  pbf_layer_values_def pbf_layer_extent_def pbf_layer_version_def

lemma map_filter_Cons:
  "List.map_filter g (x # xs) = (case g x of None \<Rightarrow> List.map_filter g xs
     | Some y \<Rightarrow> y # List.map_filter g xs)"
  by (simp add: List.map_filter_def split: option.splits)

lemma map_filter_Nil [simp]: "List.map_filter g [] = []"
  by (simp add: List.map_filter_def)

lemma layer_field_unknown:
  "\<not> known_layer_field f \<Longrightarrow> layer_field f l = Inl (unknown_field f)"
  by (auto simp: known_layer_field_def layer_field_def split: pbf_payload.splits)

lemma layer_field_known:
  assumes "known_layer_field f"
  shows "\<exists>l'. layer_field f l = Inr l'
     \<and> m_version l' = (case varint_field pbf_layer_version f of Some x \<Rightarrow> ucast x
                        | None \<Rightarrow> m_version l)
     \<and> m_name l' = (case delimited_field pbf_layer_name f of Some b \<Rightarrow> view b
                     | None \<Rightarrow> m_name l)
     \<and> m_data l' = m_data l \<and> m_layer_reader l' = m_layer_reader l
     \<and> m_key_table l' = m_key_table l \<and> m_value_table l' = m_value_table l
     \<and> m_key_table_size l'
         = m_key_table_size l + length (List.map_filter (delimited_field pbf_layer_keys) [f])
     \<and> m_value_table_size l'
         = m_value_table_size l + length (List.map_filter (delimited_field pbf_layer_values) [f])"
  using assms
  by (cases "field_payload f")
     (auto simp: known_layer_field_def layer_field_def varint_field_def delimited_field_def
        map_filter_Cons layer_tags)

lemma layer_scan_unknown:
  "\<not> list_all known_layer_field fs \<Longrightarrow> \<exists>msg. layer_scan fs l = Inl (format_exception msg)"
proof (induction fs arbitrary: l)
  case Nil
  then show ?case by simp
next
  case (Cons f fs)
  show ?case
  proof (cases "known_layer_field f")
    case False
    then show ?thesis
      by (simp add: layer_field_unknown unknown_field_def)
  next
    case True
    from layer_field_known [OF True, of l] obtain l' where "layer_field f l = Inr l'"
      by blast
    with Cons True show ?thesis
      by simp
  qed
qed

lemma layer_scan_known:
  assumes "list_all known_layer_field fs"
  shows "\<exists>l'. layer_scan fs l = Inr l'
     \<and> m_version l' = version_from (m_version l) fs
     \<and> m_name l' = name_from (m_name l) fs
     \<and> m_data l' = m_data l \<and> m_layer_reader l' = m_layer_reader l
     \<and> m_key_table l' = m_key_table l \<and> m_value_table l' = m_value_table l
     \<and> m_key_table_size l' = m_key_table_size l + length (layer_keys fs)
     \<and> m_value_table_size l' = m_value_table_size l + length (layer_values fs)"
  using assms
proof (induction fs arbitrary: l)
  case Nil
  show ?case
    by (simp add: layer_keys_def layer_values_def)
next
  case (Cons f fs)
  then have f: "known_layer_field f" and fs: "list_all known_layer_field fs"
    by simp_all
  from layer_field_known [OF f, of l] obtain l1 where l1: "layer_field f l = Inr l1"
    "m_version l1 = (case varint_field pbf_layer_version f of Some x \<Rightarrow> ucast x
                        | None \<Rightarrow> m_version l)"
    "m_name l1 = (case delimited_field pbf_layer_name f of Some b \<Rightarrow> view b
                     | None \<Rightarrow> m_name l)"
    "m_data l1 = m_data l" "m_layer_reader l1 = m_layer_reader l"
    "m_key_table l1 = m_key_table l" "m_value_table l1 = m_value_table l"
    "m_key_table_size l1
         = m_key_table_size l + length (List.map_filter (delimited_field pbf_layer_keys) [f])"
    "m_value_table_size l1
         = m_value_table_size l + length (List.map_filter (delimited_field pbf_layer_values) [f])"
    by blast
  from Cons.IH [OF fs, of l1] obtain l' where l': "layer_scan fs l1 = Inr l'"
     "m_version l' = version_from (m_version l1) fs"
     "m_name l' = name_from (m_name l1) fs"
     "m_data l' = m_data l1" "m_layer_reader l' = m_layer_reader l1"
     "m_key_table l' = m_key_table l1" "m_value_table l' = m_value_table l1"
     "m_key_table_size l' = m_key_table_size l1 + length (layer_keys fs)"
     "m_value_table_size l' = m_value_table_size l1 + length (layer_values fs)"
    by blast
  show ?case
    using l1 l'
    by (simp add: layer_keys_def layer_values_def map_filter_Cons split: option.splits)
qed

lemma name_from_null: "(name_from n fs = null_view) = (n = null_view \<and> \<not> has_name fs)"
  by (induction fs arbitrary: n) (auto simp: has_name_def split: option.splits)


lemma version_range:
  "((v::u32) < 1 \<or> 2 < v) = (v \<noteq> 1 \<and> v \<noteq> 2)"
  "((v::u32) = 0 \<or> 2 < v) = (v \<noteq> 1 \<and> v \<noteq> 2)"
  by unat_arith+

lemma layer_default_sel [simp]:
  "m_version (layer_default rd data) = 1" "m_name (layer_default rd data) = null_view"
  "m_data (layer_default rd data) = data"
  "m_layer_reader (layer_default rd data) = pbf_message rd data"
  "m_key_table (layer_default rd data) = []" "m_value_table (layer_default rd data) = []"
  "m_key_table_size (layer_default rd data) = 0"
  "m_value_table_size (layer_default rd data) = 0"
  by (simp_all add: layer_default_def)

text \<open>What the constructor returns, by cases.\<close>

lemma layer_ctor_cases:
  fixes rd data
  defines "fs \<equiv> pbf_message rd data"
  shows "\<not> list_all known_layer_field fs
           \<Longrightarrow> \<exists>msg. layer_ctor rd data = Inl (format_exception msg)"
    and "list_all known_layer_field fs \<Longrightarrow> declared_version fs \<noteq> 1
           \<Longrightarrow> declared_version fs \<noteq> 2
           \<Longrightarrow> layer_ctor rd data = Inl (version_exception (declared_version fs))"
    and "list_all known_layer_field fs \<Longrightarrow> declared_version fs = 1 \<or> declared_version fs = 2
           \<Longrightarrow> \<not> has_name fs
           \<Longrightarrow> layer_ctor rd data
               = Inl (format_exception ''missing name field in layer (spec 4.1)'')"
    and "list_all known_layer_field fs \<Longrightarrow> declared_version fs = 1 \<or> declared_version fs = 2
           \<Longrightarrow> has_name fs
           \<Longrightarrow> \<exists>l. layer_ctor rd data = Inr l \<and> m_version l = declared_version fs
                 \<and> m_name l = declared_name fs \<and> m_data l = data
                 \<and> m_layer_reader l = fs \<and> m_key_table l = [] \<and> m_value_table l = []
                 \<and> m_key_table_size l = length (layer_keys fs)
                 \<and> m_value_table_size l = length (layer_values fs)"
proof -
  show "\<exists>msg. layer_ctor rd data = Inl (format_exception msg)"
    if "\<not> list_all known_layer_field fs"
    using layer_scan_unknown [OF that, of "layer_default rd data"]
    by (auto simp: layer_ctor_def fs_def)
  {
    assume known: "list_all known_layer_field fs"
    from layer_scan_known [OF known, of "layer_default rd data"]
    obtain l where l: "layer_scan fs (layer_default rd data) = Inr l"
      "m_version l = declared_version fs" "m_name l = declared_name fs"
      "m_data l = data" "m_layer_reader l = fs" "m_key_table l = []" "m_value_table l = []"
      "m_key_table_size l = length (layer_keys fs)"
      "m_value_table_size l = length (layer_values fs)"
      by (auto simp: declared_version_def declared_name_def fs_def)
    have name: "(declared_name fs = null_view) = (\<not> has_name fs)"
      by (simp add: declared_name_def name_from_null)
    show "layer_ctor rd data = Inl (version_exception (declared_version fs))"
      if "declared_version fs \<noteq> 1" "declared_version fs \<noteq> 2"
      using that l by (simp add: layer_ctor_def fs_def [symmetric] version_range)
    show "layer_ctor rd data
               = Inl (format_exception ''missing name field in layer (spec 4.1)'')"
      if "declared_version fs = 1 \<or> declared_version fs = 2" "\<not> has_name fs"
      using that l name by (auto simp: layer_ctor_def fs_def [symmetric] version_range)
    show "\<exists>l. layer_ctor rd data = Inr l \<and> m_version l = declared_version fs
                 \<and> m_name l = declared_name fs \<and> m_data l = data
                 \<and> m_layer_reader l = fs \<and> m_key_table l = [] \<and> m_value_table l = []
                 \<and> m_key_table_size l = length (layer_keys fs)
                 \<and> m_value_table_size l = length (layer_values fs)"
      if "declared_version fs = 1 \<or> declared_version fs = 2" "has_name fs"
      using that l name by (auto simp: layer_ctor_def fs_def [symmetric] version_range)
  }
qed

subsection \<open>The name of a layer\<close>

text \<open>
  C5 as stated does not hold: the constructor asks for a name field
  (\<open>m_name.data() == nullptr\<close> raises), not for a non-empty name. The layer \<open>[10, 0]\<close>,
  whose name field is present and empty, is constructed.
\<close>

theorem layer_empty_name_counterexample:
  "has_name (example_codec [10, 0]) \<and> declared_name (example_codec [10, 0]) = view []
   \<and> layer_ctor example_codec (view [10, 0])
     = Inr \<lparr>m_data = view [10, 0], m_version = 1, m_extent = 4096, m_num_features = 0,
            m_name = view [], m_layer_reader = [pbf_field 1 (length_delimited_value [])],
            m_key_table = [], m_value_table = [], m_key_table_size = 0,
            m_value_table_size = 0\<rparr>"
  by (simp add: has_name_def declared_name_def delimited_field_def example_codec_def
        layer_ctor_def layer_default_def layer_field_def layer_tags)

text \<open>
  C5, amended: constructing a layer from bytes that contain no name field raises an
  exception, and a \<open>format_exception\<close> whenever the declared version is 1 or 2 (the
  version is checked before the name); a layer of known fields and version 1 or 2 whose
  name field is present is constructed with this name, be the name empty or not.
\<close>

theorem layer_name_check:
  "(\<not> has_name (pbf_message rd data) \<longrightarrow> (\<exists>e. layer_ctor rd data = Inl e))
   \<and> (\<not> has_name (pbf_message rd data)
        \<and> (declared_version (pbf_message rd data) = 1
             \<or> declared_version (pbf_message rd data) = 2)
      \<longrightarrow> (\<exists>msg. layer_ctor rd data = Inl (format_exception msg)))
   \<and> (has_name (pbf_message rd data) \<and> list_all known_layer_field (pbf_message rd data)
        \<and> (declared_version (pbf_message rd data) = 1
             \<or> declared_version (pbf_message rd data) = 2)
      \<longrightarrow> (\<exists>l. layer_ctor rd data = Inr l \<and> m_name l = declared_name (pbf_message rd data)
               \<and> m_name l \<noteq> null_view))"
proof -
  let ?fs = "pbf_message rd data"
  note cases = layer_ctor_cases [of rd data]
  have none: "\<exists>e. layer_ctor rd data = Inl e" if "\<not> has_name ?fs"
  proof (cases "list_all known_layer_field ?fs")
    case False
    with cases(1) show ?thesis by blast
  next
    case known: True
    show ?thesis
    proof (cases "declared_version ?fs = 1 \<or> declared_version ?fs = 2")
      case True
      with cases(3) known that show ?thesis by blast
    next
      case False
      with cases(2) known show ?thesis by blast
    qed
  qed
  have format: "\<exists>msg. layer_ctor rd data = Inl (format_exception msg)"
    if "\<not> has_name ?fs" "declared_version ?fs = 1 \<or> declared_version ?fs = 2"
  proof (cases "list_all known_layer_field ?fs")
    case False
    with cases(1) show ?thesis by blast
  next
    case True
    with cases(3) that show ?thesis by blast
  qed
  have named: "\<exists>l. layer_ctor rd data = Inr l \<and> m_name l = declared_name ?fs
      \<and> m_name l \<noteq> null_view"
    if "has_name ?fs" "list_all known_layer_field ?fs"
      "declared_version ?fs = 1 \<or> declared_version ?fs = 2"
  proof -
    from cases(4) [OF that(2,3,1)] obtain l where "layer_ctor rd data = Inr l"
      "m_name l = declared_name ?fs"
      by blast
    moreover from that(1) have "declared_name ?fs \<noteq> null_view"
      by (simp add: declared_name_def name_from_null)
    ultimately show ?thesis
      by simp
  qed
  from none format named show ?thesis
    by blast
qed

theorem layer_name_check_witness:
  "\<not> has_name (pbf_message example_codec (view []))
   \<and> declared_version (pbf_message example_codec (view [])) = 1
   \<and> (\<exists>msg. layer_ctor example_codec (view []) = Inl (format_exception msg))
   \<and> has_name (pbf_message example_codec (view [10, 0]))
   \<and> list_all known_layer_field (pbf_message example_codec (view [10, 0]))
   \<and> (\<exists>l. layer_ctor example_codec (view [10, 0]) = Inr l \<and> m_name l = view [])"
proof -
  have a: "\<not> has_name (pbf_message example_codec (view []))"
    "declared_version (pbf_message example_codec (view [])) = 1"
    by (simp_all add: has_name_def declared_version_def example_codec_def example_layer_def)
  have b: "has_name (pbf_message example_codec (view [10, 0]))"
    "list_all known_layer_field (pbf_message example_codec (view [10, 0]))"
    "declared_version (pbf_message example_codec (view [10, 0])) = 1"
    "declared_name (pbf_message example_codec (view [10, 0])) = view []"
    by (simp_all add: has_name_def declared_version_def declared_name_def example_codec_def
          delimited_field_def varint_field_def known_layer_field_def layer_tags)
  from layer_name_check [of example_codec "view []"]
    layer_name_check [of example_codec "view [10, 0]"] a b
  show ?thesis
    by auto
qed

subsection \<open>The version of a layer\<close>



subsection \<open>The key and value tables\<close>

lemma tables_scan_eq:
  "tables_scan fs l
   = l\<lparr>m_key_table := m_key_table l @ layer_keys fs,
       m_value_table := m_value_table l @ layer_values fs\<rparr>"
proof (induction fs arbitrary: l)
  case Nil
  show ?case
    by (simp add: layer_keys_def layer_values_def)
next
  case (Cons f fs)
  show ?case
    by (cases "field_payload f")
       (simp_all add: Cons.IH layer_keys_def layer_values_def map_filter_Cons
          delimited_field_def layer_tags)
qed

lemma initialize_tables_eq:
  "initialize_tables rd l
   = l\<lparr>m_key_table := m_key_table l @ layer_keys (pbf_message rd (m_data l)),
       m_value_table := m_value_table l @ layer_values (pbf_message rd (m_data l)),
       m_key_table_size := 0, m_value_table_size := 0\<rparr>"
  by (simp add: initialize_tables_def tables_scan_eq)

lemma valid_initialize_tables [simp]: "valid (initialize_tables rd l) = valid l"
  by (simp add: initialize_tables_eq valid_def)

lemma after_call_eq:
  "valid l \<Longrightarrow> after_call rd c l = (if scans c l then initialize_tables rd l else l)"
  by (cases c) (simp_all add: key_table_def value_table_def Let_def)

lemma no_scan_after_pass: "\<not> scans c (initialize_tables rd l)"
  by (cases c) (simp_all add: initialize_tables_eq)

lemma passes_none:
  "valid l \<Longrightarrow> m_key_table_size l = 0 \<Longrightarrow> m_value_table_size l = 0 \<Longrightarrow> passes rd cs l = 0"
proof (induction cs)
  case Nil
  show ?case by simp
next
  case (Cons c cs)
  then have "\<not> scans c l"
    by (cases c) simp_all
  with Cons show ?case
    by (simp add: after_call_eq)
qed

lemma passes_after_pass: "valid l \<Longrightarrow> passes rd cs (initialize_tables rd l) = 0"
proof (rule passes_none)
  show "valid l \<Longrightarrow> valid (initialize_tables rd l)"
    by simp
  show "m_key_table_size (initialize_tables rd l) = 0"
    "m_value_table_size (initialize_tables rd l) = 0"
    by (simp_all add: initialize_tables_eq)
qed

lemma passes_le_one: "valid l \<Longrightarrow> passes rd cs l \<le> 1"
proof (induction cs arbitrary: l)
  case Nil
  show ?case by simp
next
  case (Cons c cs)
  then show ?case
    by (simp add: after_call_eq passes_after_pass)
qed

lemma layer_ctor_Inr:
  assumes "layer_ctor rd data = Inr l"
  shows "valid l \<and> m_data l = data \<and> m_layer_reader l = pbf_message rd data
     \<and> m_key_table l = [] \<and> m_value_table l = []
     \<and> m_key_table_size l = length (layer_keys (pbf_message rd data))
     \<and> m_value_table_size l = length (layer_values (pbf_message rd data))
     \<and> m_version l = declared_version (pbf_message rd data)
     \<and> m_name l = declared_name (pbf_message rd data)"
proof -
  let ?fs = "pbf_message rd data"
  note cases = layer_ctor_cases [of rd data]
  from assms cases(1) have known: "list_all known_layer_field ?fs"
    by auto
  from assms cases(2) [OF known] have ok: "declared_version ?fs = 1 \<or> declared_version ?fs = 2"
    by auto
  from assms cases(3) [OF known ok] have name: "has_name ?fs"
    by auto
  then have "data \<noteq> null_view"
    by (auto simp: has_name_def)
  with assms cases(4) [OF known ok name] show ?thesis
    by (auto simp: valid_def)
qed

text \<open>
  C8 as stated does not hold: an accessor runs the pass only when the count for its own
  table is not zero. \<open>example_layer\<close> has no key and one value: the first call, of
  \<open>key_table()\<close>, runs no pass and builds no value vector, and the call of
  \<open>value_table()\<close> after it scans the data.
\<close>

theorem table_first_call_counterexample:
  "layer_ctor example_codec (view example_layer) = Inr example_layer_read
   \<and> key_table example_codec example_layer_read = Inr ([], example_layer_read)
   \<and> m_value_table example_layer_read = []
   \<and> layer_values (example_codec example_layer) = [property_value_view (view [56, 1])]
   \<and> scans call_value_table (after_call example_codec call_key_table example_layer_read)
   \<and> value_table example_codec example_layer_read
     = Inr ([property_value_view (view [56, 1])],
            example_layer_read\<lparr>m_value_table := [property_value_view (view [56, 1])],
                                m_value_table_size := 0\<rparr>)
   \<and> passes example_codec [call_key_table, call_value_table] example_layer_read = 1"
proof -
  have fields: "example_codec example_layer
      = [pbf_field 15 (varint_value 2), pbf_field 1 (length_delimited_value [97]),
         pbf_field 2 (length_delimited_value [8, 7]),
         pbf_field 2 (length_delimited_value [24, 1]),
         pbf_field 4 (length_delimited_value [56, 1])]"
    by (simp add: example_codec_def example_layer_def)
  have ctor: "layer_ctor example_codec (view example_layer) = Inr example_layer_read"
    by (simp add: layer_ctor_def layer_default_def fields layer_field_def layer_tags
          example_layer_read_def)
  have valid: "valid example_layer_read"
    by (simp add: valid_def example_layer_read_def)
  have sizes: "m_key_table_size example_layer_read = 0"
    "m_value_table_size example_layer_read = 1" "m_value_table example_layer_read = []"
    "m_key_table example_layer_read = []" "m_data example_layer_read = view example_layer"
    by (simp_all add: example_layer_read_def)
  have "values": "layer_values (example_codec example_layer)
      = [property_value_view (view [56, 1])]"
    "layer_keys (example_codec example_layer) = []"
    by (simp_all add: fields layer_values_def layer_keys_def map_filter_Cons
          delimited_field_def layer_tags)
  show ?thesis
    using ctor valid sizes "values"
    by (simp add: key_table_def value_table_def initialize_tables_eq)
qed

text \<open>
  C8, amended: over any sequence of calls of \<open>key_table()\<close> and \<open>value_table()\<close> on a
  layer, the pass over the layer data runs at most once. A call runs it when the count
  for its own table is not zero (for a layer as constructed: when the layer has a record
  of the kind asked for); the pass builds both the key vector and the value vector, and
  no call after it runs a pass again: each returns the cached vector and leaves the layer
  as it is. A call that runs no pass leaves the layer as it is.
\<close>

theorem table_pass_at_most_once:
  assumes "valid l"
  shows "passes rd cs l \<le> 1
     \<and> key_table rd l = Inr (m_key_table (after_call rd call_key_table l),
                             after_call rd call_key_table l)
     \<and> value_table rd l = Inr (m_value_table (after_call rd call_value_table l),
                               after_call rd call_value_table l)
     \<and> (\<not> scans c l \<longrightarrow> after_call rd c l = l)
     \<and> (scans c l \<longrightarrow>
          after_call rd c l = initialize_tables rd l
          \<and> m_key_table (after_call rd c l)
              = m_key_table l @ layer_keys (pbf_message rd (m_data l))
          \<and> m_value_table (after_call rd c l)
              = m_value_table l @ layer_values (pbf_message rd (m_data l))
          \<and> passes rd cs (after_call rd c l) = 0
          \<and> after_call rd c' (after_call rd c l) = after_call rd c l)
     \<and> (layer_ctor rd data = Inr l \<longrightarrow>
          m_key_table l = [] \<and> m_value_table l = []
          \<and> scans call_key_table l = (layer_keys (pbf_message rd (m_data l)) \<noteq> [])
          \<and> scans call_value_table l = (layer_values (pbf_message rd (m_data l)) \<noteq> []))"
proof -
  have accessors: "key_table rd l = Inr (m_key_table (after_call rd call_key_table l),
                             after_call rd call_key_table l)"
    "value_table rd l = Inr (m_value_table (after_call rd call_value_table l),
                               after_call rd call_value_table l)"
    using assms by (simp_all add: key_table_def value_table_def Let_def)
  have scan: "after_call rd c l = initialize_tables rd l
          \<and> m_key_table (after_call rd c l)
              = m_key_table l @ layer_keys (pbf_message rd (m_data l))
          \<and> m_value_table (after_call rd c l)
              = m_value_table l @ layer_values (pbf_message rd (m_data l))
          \<and> passes rd cs (after_call rd c l) = 0
          \<and> after_call rd c' (after_call rd c l) = after_call rd c l" if "scans c l"
    using that assms
    by (simp add: after_call_eq passes_after_pass no_scan_after_pass)
       (simp add: initialize_tables_eq)
  have fresh: "m_key_table l = [] \<and> m_value_table l = []
          \<and> scans call_key_table l = (layer_keys (pbf_message rd (m_data l)) \<noteq> [])
          \<and> scans call_value_table l = (layer_values (pbf_message rd (m_data l)) \<noteq> [])"
    if "layer_ctor rd data = Inr l"
    using layer_ctor_Inr [OF that] by simp
  from passes_le_one [OF assms, of rd cs] accessors scan fresh after_call_eq [OF assms, of rd c]
  show ?thesis
    by simp
qed

theorem table_pass_at_most_once_witness:
  "valid example_layer_read
   \<and> layer_ctor example_codec (view example_layer) = Inr example_layer_read
   \<and> scans call_value_table example_layer_read
   \<and> \<not> scans call_key_table example_layer_read
   \<and> passes example_codec [call_key_table, call_value_table, call_key_table, call_value_table]
       example_layer_read \<le> 1
   \<and> m_value_table (after_call example_codec call_value_table example_layer_read)
     = [property_value_view (view [56, 1])]
   \<and> after_call example_codec call_key_table
       (after_call example_codec call_value_table example_layer_read)
     = after_call example_codec call_value_table example_layer_read"
proof -
  have fields: "example_codec example_layer
      = [pbf_field 15 (varint_value 2), pbf_field 1 (length_delimited_value [97]),
         pbf_field 2 (length_delimited_value [8, 7]),
         pbf_field 2 (length_delimited_value [24, 1]),
         pbf_field 4 (length_delimited_value [56, 1])]"
    by (simp add: example_codec_def example_layer_def)
  have ctor: "layer_ctor example_codec (view example_layer) = Inr example_layer_read"
    by (simp add: layer_ctor_def layer_default_def fields layer_field_def layer_tags
          example_layer_read_def)
  have valid: "valid example_layer_read"
    by (simp add: valid_def example_layer_read_def)
  have sizes: "scans call_value_table example_layer_read"
    "\<not> scans call_key_table example_layer_read" "m_value_table example_layer_read = []"
    "m_data example_layer_read = view example_layer"
    by (simp_all add: example_layer_read_def)
  have "values": "layer_values (example_codec example_layer)
      = [property_value_view (view [56, 1])]"
    by (simp add: fields layer_values_def map_filter_Cons delimited_field_def layer_tags)
  have pass: "after_call example_codec call_value_table example_layer_read
      = initialize_tables example_codec example_layer_read"
    using valid sizes by (simp add: after_call_eq del: after_call.simps)
  from table_pass_at_most_once [OF valid, of example_codec
      "[call_key_table, call_value_table, call_key_table, call_value_table]"
      call_value_table call_key_table "view example_layer"]
    valid ctor sizes "values"
  show ?thesis
    unfolding pass by (simp del: after_call.simps passes.simps scans.simps)
qed

subsection \<open>Features\<close>

lemma next_length_delimited_Some:
  "next_length_delimited t fs = Some (b, rest)
   \<Longrightarrow> List.map_filter (delimited_field t) fs = b # List.map_filter (delimited_field t) rest"
  by (induction fs)
     (auto simp: map_filter_Cons delimited_field_def split: pbf_payload.splits if_splits)

lemma next_length_delimited_None:
  "next_length_delimited t fs = None \<Longrightarrow> List.map_filter (delimited_field t) fs = []"
  by (induction fs)
     (auto simp: map_filter_Cons delimited_field_def split: pbf_payload.splits if_splits)

lemma remaining_features_eq:
  "valid l \<Longrightarrow> remaining_features l
     = map (\<lambda>b. feature (view b)) (layer_features (m_layer_reader l))"
proof (induction l rule: remaining_features.induct)
  case (1 l)
  show ?case
  proof (cases "next_length_delimited pbf_layer_features (m_layer_reader l)")
    case None
    with "1.prems" next_length_delimited_None [OF None] show ?thesis
      by (subst remaining_features.simps) (simp add: next_feature_def layer_features_def)
  next
    case (Some r)
    obtain b rest where r: "r = (b, rest)"
      by (cases r)
    let ?l' = "l\<lparr>m_layer_reader := rest\<rparr>"
    from "1.prems" Some r have step: "next_feature l = Inr (feature (view b), ?l')"
      by (simp add: next_feature_def)
    from "1.prems" have "valid ?l'"
      by (simp add: valid_def)
    from "1.IH" [OF step refl refl this]
    have "remaining_features ?l' = map (\<lambda>b. feature (view b)) (layer_features rest)"
      by simp
    with step next_length_delimited_Some [OF Some [unfolded r]] show ?thesis
      by (subst remaining_features.simps) (simp add: layer_features_def)
  qed
qed

lemma feature_by_id_loop_found:
  "feature_by_id_loop rd ident fs = feature data
   \<Longrightarrow> \<exists>b rest. data = view b \<and> b \<in> set (layer_features fs)
         \<and> next_varint pbf_feature_id (rd b) = Some (ident, rest)"
proof (induction rd ident fs rule: feature_by_id_loop.induct)
  case (1 rd ident fs)
  show ?case
  proof (cases "next_length_delimited pbf_layer_features fs")
    case None
    with "1.prems" show ?thesis
      by (simp add: feature_by_id_loop.simps [of rd ident fs])
  next
    case (Some r)
    obtain b rest where r: "r = (b, rest)"
      by (cases r)
    from next_length_delimited_Some [OF Some [unfolded r]]
    have feats: "layer_features fs = b # layer_features rest"
      by (simp add: layer_features_def)
    show ?thesis
    proof (cases "next_varint pbf_feature_id (rd b)")
      case None
      with "1.prems" Some r have "feature_by_id_loop rd ident rest = feature data"
        by (simp add: feature_by_id_loop.simps [of rd ident fs])
      from "1.IH"(1) [OF Some r [symmetric] _ this] None feats show ?thesis
        by auto
    next
      case found: (Some q)
      obtain v more where q: "q = (v, more)"
        by (cases q)
      show ?thesis
      proof (cases "v = ident")
        case True
        with "1.prems" Some r found q have "data = view b"
          by (simp add: feature_by_id_loop.simps [of rd ident fs])
        with found q True feats show ?thesis
          by auto
      next
        case False
        with "1.prems" Some r found q have "feature_by_id_loop rd ident rest = feature data"
          by (simp add: feature_by_id_loop.simps [of rd ident fs])
        from "1.IH"(2) [OF Some r [symmetric] _ q [symmetric] False this] found feats
        show ?thesis
          by auto
      qed
    qed
  qed
qed

lemma feature_by_id_loop_none:
  "(\<forall>b\<in>set (layer_features fs). \<forall>rest. next_varint pbf_feature_id (rd b) \<noteq> Some (ident, rest))
   \<Longrightarrow> feature_by_id_loop rd ident fs = invalid_feature"
proof -
  assume none: "\<forall>b\<in>set (layer_features fs). \<forall>rest.
      next_varint pbf_feature_id (rd b) \<noteq> Some (ident, rest)"
  show ?thesis
  proof (cases "feature_by_id_loop rd ident fs")
    case invalid_feature
    then show ?thesis .
  next
    case (feature data)
    from feature_by_id_loop_found [OF this] none show ?thesis
      by blast
  qed
qed

text \<open>
  C9: \<open>get_feature_by_id\<close> reads the layer data with a reader of its own and leaves the
  layer as it is: after the call, \<open>next_feature()\<close> returns what it would have returned
  without it, and so does every call of \<open>next_feature()\<close> that follows; these features
  are the feature records behind the position of the layer's own reader.
\<close>

theorem get_feature_by_id_frame:
  assumes "valid l"
  shows "get_feature_by_id rd l ident
           = Inr (feature_by_id_loop rd ident (pbf_message rd (m_data l)), l)
     \<and> (\<forall>f l'. get_feature_by_id rd l ident = Inr (f, l')
          \<longrightarrow> m_layer_reader l' = m_layer_reader l \<and> next_feature l' = next_feature l
              \<and> remaining_features l' = remaining_features l)
     \<and> remaining_features l
         = map (\<lambda>b. feature (view b)) (layer_features (m_layer_reader l))"
  using assms by (simp add: get_feature_by_id_def remaining_features_eq)

theorem get_feature_by_id_frame_witness:
  "valid example_layer_read
   \<and> get_feature_by_id example_codec example_layer_read 7
     = Inr (feature (view [8, 7]), example_layer_read)
   \<and> remaining_features example_layer_read
     = [feature (view [8, 7]), feature (view [24, 1])]"
proof -
  have valid: "valid example_layer_read"
    by (simp add: valid_def example_layer_read_def)
  have fields: "example_codec example_layer
      = [pbf_field 15 (varint_value 2), pbf_field 1 (length_delimited_value [97]),
         pbf_field 2 (length_delimited_value [8, 7]),
         pbf_field 2 (length_delimited_value [24, 1]),
         pbf_field 4 (length_delimited_value [56, 1])]"
    by (simp add: example_codec_def example_layer_def)
  have reader: "m_layer_reader example_layer_read = example_codec example_layer"
    "m_data example_layer_read = view example_layer"
    by (simp_all add: example_layer_read_def)
  have feats: "layer_features (example_codec example_layer) = [[8, 7], [24, 1]]"
    by (simp add: fields layer_features_def map_filter_Cons delimited_field_def layer_tags)
  have found: "feature_by_id_loop example_codec 7 (example_codec example_layer)
      = feature (view [8, 7])"
    by (subst feature_by_id_loop.simps)
       (simp add: fields layer_tags pbf_feature_id_def example_codec_def example_layer_def)
  from get_feature_by_id_frame [OF valid, of example_codec 7] valid reader feats found
  show ?thesis
    by simp
qed

text \<open>
  C10: \<open>get_feature_by_id\<close> returns only a feature whose record has an id field (a
  varint field 1) with the id asked for. A feature record with no id field is never
  returned, not for the id 0 either, although its \<open>id()\<close> is 0; and when no feature
  record of the layer has the id field 0, \<open>get_feature_by_id(0)\<close> returns the invalid
  feature.
\<close>

theorem get_feature_by_id_explicit:
  assumes "valid l"
  shows "(\<forall>data l'. get_feature_by_id rd l ident = Inr (feature data, l')
            \<longrightarrow> (\<exists>b rest. data = view b
                  \<and> b \<in> set (layer_features (pbf_message rd (m_data l)))
                  \<and> next_varint pbf_feature_id (rd b) = Some (ident, rest)))
     \<and> (\<forall>b. next_varint pbf_feature_id (rd b) = None
            \<longrightarrow> feature_id rd (feature (view b)) = 0
                \<and> (\<forall>l'. get_feature_by_id rd l 0 \<noteq> Inr (feature (view b), l')))
     \<and> ((\<forall>b\<in>set (layer_features (pbf_message rd (m_data l))).
            \<forall>rest. next_varint pbf_feature_id (rd b) \<noteq> Some (0, rest))
          \<longrightarrow> get_feature_by_id rd l 0 = Inr (invalid_feature, l))"
proof (intro conjI allI impI)
  fix data l'
  assume "get_feature_by_id rd l ident = Inr (feature data, l')"
  with assms have "feature_by_id_loop rd ident (pbf_message rd (m_data l)) = feature data"
    by (auto simp: get_feature_by_id_def)
  then show "\<exists>b rest. data = view b
                  \<and> b \<in> set (layer_features (pbf_message rd (m_data l)))
                  \<and> next_varint pbf_feature_id (rd b) = Some (ident, rest)"
    by (rule feature_by_id_loop_found)
next
  fix b
  assume none: "next_varint pbf_feature_id (rd b) = None"
  then show "feature_id rd (feature (view b)) = 0"
    by (simp add: feature_id_def)
  fix l'
  show "get_feature_by_id rd l 0 \<noteq> Inr (feature (view b), l')"
  proof
    assume "get_feature_by_id rd l 0 = Inr (feature (view b), l')"
    with assms have "feature_by_id_loop rd 0 (pbf_message rd (m_data l)) = feature (view b)"
      by (auto simp: get_feature_by_id_def)
    from feature_by_id_loop_found [OF this] none show False
      by auto
  qed
next
  assume "\<forall>b\<in>set (layer_features (pbf_message rd (m_data l))).
            \<forall>rest. next_varint pbf_feature_id (rd b) \<noteq> Some (0, rest)"
  then have "feature_by_id_loop rd 0 (pbf_message rd (m_data l)) = invalid_feature"
    by (rule feature_by_id_loop_none)
  with assms show "get_feature_by_id rd l 0 = Inr (invalid_feature, l)"
    by (simp add: get_feature_by_id_def)
qed

theorem get_feature_by_id_explicit_witness:
  "valid example_layer_read
   \<and> layer_features (pbf_message example_codec (m_data example_layer_read))
     = [[8, 7], [24, 1]]
   \<and> next_varint pbf_feature_id (example_codec [8, 7]) = Some (7, [])
   \<and> next_varint pbf_feature_id (example_codec [24, 1]) = None
   \<and> feature_id example_codec (feature (view [24, 1])) = 0
   \<and> get_feature_by_id example_codec example_layer_read 0
     = Inr (invalid_feature, example_layer_read)"
proof -
  have valid: "valid example_layer_read"
    by (simp add: valid_def example_layer_read_def)
  have fields: "example_codec example_layer
      = [pbf_field 15 (varint_value 2), pbf_field 1 (length_delimited_value [97]),
         pbf_field 2 (length_delimited_value [8, 7]),
         pbf_field 2 (length_delimited_value [24, 1]),
         pbf_field 4 (length_delimited_value [56, 1])]"
    by (simp add: example_codec_def example_layer_def)
  have data: "m_data example_layer_read = view example_layer"
    by (simp add: example_layer_read_def)
  have feats: "layer_features (example_codec example_layer) = [[8, 7], [24, 1]]"
    by (simp add: fields layer_features_def map_filter_Cons delimited_field_def layer_tags)
  have ids: "next_varint pbf_feature_id (example_codec [8, 7]) = Some (7, [])"
    "next_varint pbf_feature_id (example_codec [24, 1]) = None"
    by (simp_all add: example_codec_def example_layer_def pbf_feature_id_def)
  from get_feature_by_id_explicit [OF valid, of example_codec 0] valid data feats ids
  show ?thesis
    by simp
qed

end
